theory Spec2Isabelle
  imports
    Main
    "HOL-Library.Char_ord"
    "HOL-Library.List_Lexorder"
    "HOL-Library.Product_Lexorder"
    "HOL-Library.Option_ord"
begin

section \<open>Version candidates for deprecation bounds\<close>

text \<open>
  The two scripts \<^verbatim>\<open>scripts/test_ver.py\<close> (\<^verbatim>\<open>get_version_candidates\<close>) and
  \<^verbatim>\<open>scripts/verify_versions.py\<close> (\<^verbatim>\<open>generate_candidates\<close>) read the bounds
  \<^verbatim>\<open>deprecated_in\<close> and \<^verbatim>\<open>removed_in\<close> of a list of records, parse them with
  \<^verbatim>\<open>packaging.version.parse\<close>, group the final releases by major number and, for each
  group, synthesise a few version strings around the group's minimum and maximum.

  Both scripts lean on the \<^verbatim>\<open>packaging\<close> library for parsing, ordering and printing
  versions. That library is embedded first, following its \<^verbatim>\<open>version.py\<close>; the two
  scripts follow, function by function.

  Strings are lists of 8-bit characters, read as code points below 256. Integers are
  natural numbers of any size (the interpreter's limit on the length of a decimal numeral
  is not modelled). The calls to \<^verbatim>\<open>print\<close> only write to the standard output and are
  left out.
\<close>

subsection \<open>Decimal numerals: \<^verbatim>\<open>str\<close> and \<^verbatim>\<open>int\<close> on non-negative integers\<close>

definition is_digit :: "char \<Rightarrow> bool" where
  "is_digit c \<longleftrightarrow> 48 \<le> (of_char c :: nat) \<and> (of_char c :: nat) \<le> 57"

definition digit_chr :: "nat \<Rightarrow> char" where
  "digit_chr d = char_of (48 + d)"

definition digit_val :: "char \<Rightarrow> nat" where
  "digit_val c = of_char c - 48"

text \<open>\<^verbatim>\<open>str(n)\<close> for an integer \<open>n \<ge> 0\<close>.\<close>

fun str_nat :: "nat \<Rightarrow> string" where
  "str_nat n = (if n < 10 then [digit_chr n] else str_nat (n div 10) @ [digit_chr (n mod 10)])"

declare str_nat.simps [simp del]

text \<open>\<^verbatim>\<open>int(s)\<close> for a string of decimal digits (leading zeros are allowed).\<close>

definition int_of_digits :: "string \<Rightarrow> nat" where
  "int_of_digits s = foldl (\<lambda>a c. 10 * a + digit_val c) 0 s"

text \<open>\<^verbatim>\<open>sep.join(parts)\<close>.\<close>

fun join :: "string \<Rightarrow> string list \<Rightarrow> string" where
  "join sep [] = []"
| "join sep [x] = x"
| "join sep (x # y # ys) = x @ sep @ join sep (y # ys)"

subsection \<open>\<^verbatim>\<open>packaging.version.Version\<close>\<close>

text \<open>
  A parsed version, the named tuple \<^verbatim>\<open>_Version\<close>. The letter of a post-release is always
  \<^verbatim>\<open>post\<close> and that of a development release always \<^verbatim>\<open>dev\<close>, so only their numbers are
  kept; a pre-release keeps its normalised letter (\<^verbatim>\<open>a\<close>, \<^verbatim>\<open>b\<close> or \<^verbatim>\<open>rc\<close>). A
  part of the local version is an integer or a lower-case string.
\<close>

datatype local_part = LInt nat | LStr string

record Version =
  epoch :: nat
  release :: "nat list"
  dev :: "nat option"
  pre :: "(string \<times> nat) option"
  post :: "nat option"
  local_v :: "local_part list option"

definition is_prerelease :: "Version \<Rightarrow> bool" where
  "is_prerelease v \<longleftrightarrow> dev v \<noteq> None \<or> pre v \<noteq> None"

text \<open>\<^verbatim>\<open>Version.__str__\<close>.\<close>

fun str_local_part :: "local_part \<Rightarrow> string" where
  "str_local_part (LInt n) = str_nat n"
| "str_local_part (LStr s) = s"

definition str_version :: "Version \<Rightarrow> string" where
  "str_version v =
     (if epoch v \<noteq> 0 then str_nat (epoch v) @ ''!'' else [])
     @ join ''.'' (map str_nat (release v))
     @ (case pre v of None \<Rightarrow> [] | Some (l, n) \<Rightarrow> l @ str_nat n)
     @ (case post v of None \<Rightarrow> [] | Some n \<Rightarrow> ''.post'' @ str_nat n)
     @ (case dev v of None \<Rightarrow> [] | Some n \<Rightarrow> ''.dev'' @ str_nat n)
     @ (case local_v v of None \<Rightarrow> [] | Some ps \<Rightarrow> ''+'' @ join ''.'' (map str_local_part ps))"

subsection \<open>The comparison key \<^verbatim>\<open>_cmpkey\<close>\<close>

text \<open>
  Versions are compared through their keys, tuples compared lexicographically as Python
  compares tuples. The key holds the epoch, the release without its trailing zeros, and
  the pre, post, dev and local segments, where \<^verbatim>\<open>Infinity\<close> and \<^verbatim>\<open>NegativeInfinity\<close>
  stand for a missing segment. The encoding below keeps that order:
  \<^item> pre: \<open>(0, [], 0)\<close> is \<^verbatim>\<open>NegativeInfinity\<close>, \<open>(1, l, n)\<close> the segment \<open>(l, n)\<close>,
    \<open>(2, [], 0)\<close> is \<^verbatim>\<open>Infinity\<close>;
  \<^item> post: \<open>None\<close> is \<^verbatim>\<open>NegativeInfinity\<close>, below every \<open>Some n\<close>;
  \<^item> dev: \<open>(0, n)\<close> is the segment, \<open>(1, 0)\<close> is \<^verbatim>\<open>Infinity\<close>;
  \<^item> local: \<open>None\<close> is \<^verbatim>\<open>NegativeInfinity\<close>; an integer part \<open>i\<close> is
    \<open>(Some i, [])\<close> and a string part \<open>s\<close> is \<open>(None, s)\<close>, so that strings sort
    before integers.
\<close>

type_synonym cmp_key =
  "nat \<times> nat list \<times> (nat \<times> string \<times> nat) \<times> nat option \<times> (nat \<times> nat)
     \<times> (nat option \<times> string) list option"

definition strip_trailing_zeros :: "nat list \<Rightarrow> nat list" where
  "strip_trailing_zeros rel = rev (dropWhile (\<lambda>x. x = 0) (rev rel))"

fun cmp_local_part :: "local_part \<Rightarrow> nat option \<times> string" where
  "cmp_local_part (LInt i) = (Some i, [])"
| "cmp_local_part (LStr s) = (None, s)"

definition cmpkey :: "Version \<Rightarrow> cmp_key" where
  "cmpkey v =
     (epoch v,
      strip_trailing_zeros (release v),
      (if pre v = None \<and> post v = None \<and> dev v \<noteq> None then (0, [], 0)
       else case pre v of None \<Rightarrow> (2, [], 0) | Some (l, n) \<Rightarrow> (1, l, n)),
      post v,
      (case dev v of None \<Rightarrow> (1, 0) | Some n \<Rightarrow> (0, n)),
      map_option (map cmp_local_part) (local_v v))"

text \<open>\<^verbatim>\<open>Version.__lt__\<close>; \<^verbatim>\<open>a > b\<close> is \<^verbatim>\<open>b < a\<close> on the keys.\<close>

definition version_lt :: "Version \<Rightarrow> Version \<Rightarrow> bool" where
  "version_lt v w \<longleftrightarrow> cmpkey v < cmpkey w"

subsection \<open>The parser \<^verbatim>\<open>packaging.version.parse\<close>\<close>

text \<open>
  \<^verbatim>\<open>parse(s)\<close> matches \<open>s\<close> against the anchored, case-insensitive pattern
  \<^verbatim>\<open>\s* v? (epoch!)? release pre? post? dev? (+local)? \s*\<close>
  and raises \<^verbatim>\<open>InvalidVersion\<close> when it does not match; here the result is \<open>None\<close>.
  The pattern is read left to right, each piece taking the longest prefix it can: a
  piece that matched never has to give characters back, because no later piece of the
  pattern can start with what it would return. For the same reason the order of the
  alternatives of a keyword does not matter when one is a prefix of another (\<^verbatim>\<open>a\<close> and
  \<^verbatim>\<open>alpha\<close>, \<^verbatim>\<open>pre\<close> and \<^verbatim>\<open>preview\<close>, \<^verbatim>\<open>r\<close> and \<^verbatim>\<open>rev\<close>); they are listed
  longest first, as in the library.

  The letters that matched are lower-cased by the library afterwards; here the whole
  string is lower-cased before it is matched. \<open>is_space\<close> holds of the code points below
  256 that \<^verbatim>\<open>\s\<close> matches in a string pattern.
\<close>

definition is_space :: "char \<Rightarrow> bool" where
  "is_space c \<longleftrightarrow> (of_char c :: nat) \<in> {9, 10, 11, 12, 13, 28, 29, 30, 31, 32, 133, 160}"

definition lower_chr :: "char \<Rightarrow> char" where
  "lower_chr c =
     (if 65 \<le> (of_char c :: nat) \<and> (of_char c :: nat) \<le> 90 then char_of (of_char c + 32 :: nat) else c)"

definition is_alnum :: "char \<Rightarrow> bool" where
  "is_alnum c \<longleftrightarrow> is_digit c \<or> (97 \<le> (of_char c :: nat) \<and> (of_char c :: nat) \<le> 122)"

definition is_sep :: "char \<Rightarrow> bool" where
  "is_sep c \<longleftrightarrow> c = CHR ''-'' \<or> c = CHR ''_'' \<or> c = CHR ''.''"

definition is_dot :: "char \<Rightarrow> bool" where
  "is_dot c \<longleftrightarrow> c = CHR ''.''"

text \<open>
  \<^verbatim>\<open>X+(?:S X+)*\<close> for a class \<open>X\<close> of characters and a class \<open>S\<close> of separators, on a
  string that starts with an \<open>X\<close>: the matched runs of \<open>X\<close> and the rest of the string.
\<close>

function parse_segments :: "(char \<Rightarrow> bool) \<Rightarrow> (char \<Rightarrow> bool) \<Rightarrow> string \<Rightarrow> string list \<times> string" where
  "parse_segments X S s =
     (let seg = takeWhile X s; r = dropWhile X s in
      case r of
        [] \<Rightarrow> ([seg], [])
      | c # r' \<Rightarrow>
          (case r' of
             [] \<Rightarrow> ([seg], r)
           | d # _ \<Rightarrow>
               if S c \<and> X d
               then (let (segs, rest) = parse_segments X S r' in (seg # segs, rest))
               else ([seg], r)))"
  by pat_completeness auto
termination
proof (relation "measure (\<lambda>(X, S, s). length s)")
  show "wf (measure (\<lambda>(X, S, s). length s))" by simp
next
  fix X S :: "char \<Rightarrow> bool" and s seg r :: string and c :: char and r' :: string and d :: char and ds :: string
  assume "r = dropWhile X s" and "r = c # r'"
  then have "length (c # r') \<le> length s"
    by (metis length_dropWhile_le)
  then show "((X, S, r'), (X, S, s)) \<in> measure (\<lambda>(X, S, s). length s)"
    by simp
qed

declare parse_segments.simps [simp del]

text \<open>The optional epoch \<^verbatim>\<open>(?:([0-9]+)!)?\<close>.\<close>

definition parse_epoch :: "string \<Rightarrow> nat \<times> string" where
  "parse_epoch s =
     (let ds = takeWhile is_digit s; r = dropWhile is_digit s in
      case r of
        c # r' \<Rightarrow> if ds \<noteq> [] \<and> c = CHR ''!'' then (int_of_digits ds, r') else (0, s)
      | [] \<Rightarrow> (0, s))"

text \<open>The first alternative of \<^verbatim>\<open>(k1|k2|...)\<close> that is a prefix of the string.\<close>

fun strip_prefix :: "string \<Rightarrow> string \<Rightarrow> string option" where
  "strip_prefix [] s = Some s"
| "strip_prefix (k # ks) [] = None"
| "strip_prefix (k # ks) (c # s) = (if k = c then strip_prefix ks s else None)"

fun match_keyword :: "string list \<Rightarrow> string \<Rightarrow> (string \<times> string) option" where
  "match_keyword [] s = None"
| "match_keyword (k # ks) s =
     (case strip_prefix k s of Some r \<Rightarrow> Some (k, r) | None \<Rightarrow> match_keyword ks s)"

text \<open>The optional separator \<^verbatim>\<open>[-_\.]?\<close> and the optional number \<^verbatim>\<open>([0-9]+)?\<close>.\<close>

definition opt_sep :: "string \<Rightarrow> string" where
  "opt_sep s = (case s of [] \<Rightarrow> [] | c # r \<Rightarrow> if is_sep c then r else s)"

definition opt_number :: "string \<Rightarrow> string option \<times> string" where
  "opt_number s =
     (let ds = takeWhile is_digit s in
      (if ds = [] then None else Some ds, dropWhile is_digit s))"

text \<open>
  A lettered segment \<^verbatim>\<open>[-_\.]?(k1|k2|...)[-_\.]?([0-9]+)?\<close>: the letter, the number if
  there is one, and the rest; \<open>None\<close> when the segment is absent.
\<close>

definition letter_segment :: "string list \<Rightarrow> string \<Rightarrow> ((string \<times> string option) \<times> string) option" where
  "letter_segment kws s =
     (case match_keyword kws (opt_sep s) of
        None \<Rightarrow> None
      | Some (l, r) \<Rightarrow> (let (n, r') = opt_number (opt_sep r) in Some ((l, n), r')))"

text \<open>\<^verbatim>\<open>_parse_letter_version\<close>, on a lower-case letter.\<close>

definition parse_letter_version :: "string option \<Rightarrow> string option \<Rightarrow> (string \<times> nat) option" where
  "parse_letter_version letter number =
     (case letter of
        Some l \<Rightarrow>
          Some (if l = ''alpha'' then ''a''
                else if l = ''beta'' then ''b''
                else if l \<in> set [''c'', ''pre'', ''preview''] then ''rc''
                else if l \<in> set [''rev'', ''r''] then ''post''
                else l,
                case number of None \<Rightarrow> 0 | Some ds \<Rightarrow> int_of_digits ds)
      | None \<Rightarrow>
          (case number of
             Some ds \<Rightarrow> if ds \<noteq> [] then Some (''post'', int_of_digits ds) else None
           | None \<Rightarrow> None))"

definition parse_pre :: "string \<Rightarrow> (string \<times> nat) option \<times> string" where
  "parse_pre s =
     (case letter_segment [''alpha'', ''a'', ''beta'', ''b'', ''preview'', ''pre'', ''c'', ''rc''] s of
        None \<Rightarrow> (None, s)
      | Some ((l, n), r) \<Rightarrow> (parse_letter_version (Some l) n, r))"

text \<open>The post-release: \<^verbatim>\<open>-N\<close>, or a lettered segment with \<^verbatim>\<open>post\<close>, \<^verbatim>\<open>rev\<close> or \<^verbatim>\<open>r\<close>.\<close>

definition parse_post :: "string \<Rightarrow> (string \<times> nat) option \<times> string" where
  "parse_post s =
     (let lettered =
        (case letter_segment [''post'', ''rev'', ''r''] s of
           None \<Rightarrow> (None, s)
         | Some ((l, n), r) \<Rightarrow> (parse_letter_version (Some l) n, r))
      in case s of
           c # r \<Rightarrow>
             if c = CHR ''-'' \<and> takeWhile is_digit r \<noteq> []
             then (parse_letter_version None (Some (takeWhile is_digit r)), dropWhile is_digit r)
             else lettered
         | [] \<Rightarrow> lettered)"

definition parse_dev :: "string \<Rightarrow> (string \<times> nat) option \<times> string" where
  "parse_dev s =
     (case letter_segment [''dev''] s of
        None \<Rightarrow> (None, s)
      | Some ((l, n), r) \<Rightarrow> (parse_letter_version (Some l) n, r))"

text \<open>\<^verbatim>\<open>_parse_local_version\<close> on the parts of the matched local version.\<close>

definition local_part_of :: "string \<Rightarrow> local_part" where
  "local_part_of part = (if list_all is_digit part then LInt (int_of_digits part) else LStr part)"

definition parse_local :: "string \<Rightarrow> local_part list option \<times> string" where
  "parse_local s =
     (case s of
        c # r \<Rightarrow>
          (case r of
             d # _ \<Rightarrow>
               if c = CHR ''+'' \<and> is_alnum d
               then (let (parts, rest) = parse_segments is_alnum is_sep r
                     in (Some (map local_part_of parts), rest))
               else (None, s)
           | [] \<Rightarrow> (None, s))
      | [] \<Rightarrow> (None, s))"

definition parse_version :: "string \<Rightarrow> Version option" where
  "parse_version version =
     (let s0 = map lower_chr (dropWhile is_space version);
          s1 = (case s0 of [] \<Rightarrow> [] | c # r \<Rightarrow> if c = CHR ''v'' then r else s0);
          (ep, s2) = parse_epoch s1
      in case s2 of
           [] \<Rightarrow> None
         | c # _ \<Rightarrow>
             if \<not> is_digit c then None
             else
               (let (rel, s3) = parse_segments is_digit is_dot s2;
                    (pr, s4) = parse_pre s3;
                    (po, s5) = parse_post s4;
                    (de, s6) = parse_dev s5;
                    (lo, s7) = parse_local s6
                in if list_all is_space s7
                   then Some \<lparr> epoch = ep, release = map int_of_digits rel,
                               dev = map_option snd de, pre = pr, post = map_option snd po,
                               local_v = lo \<rparr>
                   else None))"

subsection \<open>What the two scripts share\<close>

text \<open>
  A record of the input is a dictionary; \<^verbatim>\<open>entry.get(key)\<close> is \<open>None\<close> when the key is
  missing. The bounds are strings.
\<close>

type_synonym entry = "string \<rightharpoonup> string"

datatype error = IndexError | ValueError | InvalidVersion

definition get_major :: "Version \<Rightarrow> nat" where
  "get_major v = (case release v of [] \<Rightarrow> 0 | m # _ \<Rightarrow> m)"

text \<open>
  The first loop: every bound that is present, non-empty, parses and is not a
  pre-release is appended to \<^verbatim>\<open>versions\<close>; a bound that does not parse is skipped by the
  bare \<^verbatim>\<open>except\<close>.
\<close>

definition bound_versions :: "entry \<Rightarrow> Version list" where
  "bound_versions entry =
     concat (map (\<lambda>key.
       case entry key of
         None \<Rightarrow> []
       | Some v_str \<Rightarrow>
           if v_str = [] then []
           else (case parse_version v_str of
                   None \<Rightarrow> []
                 | Some v \<Rightarrow> if \<not> is_prerelease v then [v] else []))
       [''deprecated_in'', ''removed_in''])"

definition collect_versions :: "entry list \<Rightarrow> Version list" where
  "collect_versions data = concat (map bound_versions data)"

text \<open>
  The dictionary \<^verbatim>\<open>by_major\<close> keeps its keys in the order of their insertion, so it is an
  association list with a new key added at the end.
\<close>

fun add_to_group :: "nat \<Rightarrow> Version \<Rightarrow> (nat \<times> Version list) list \<Rightarrow> (nat \<times> Version list) list" where
  "add_to_group major v [] = [(major, [v])]"
| "add_to_group major v ((k, g) # by_major) =
     (if k = major then (k, g @ [v]) # by_major else (k, g) # add_to_group major v by_major)"

definition group_by_major :: "Version list \<Rightarrow> (nat \<times> Version list) list" where
  "group_by_major versions = foldl (\<lambda>by_major v. add_to_group (get_major v) v by_major) [] versions"

text \<open>
  \<^verbatim>\<open>min\<close> and \<^verbatim>\<open>max\<close> raise \<^verbatim>\<open>ValueError\<close> on an empty list and otherwise keep the first
  of several smallest (largest) items: the item held is replaced only by one that is
  strictly smaller (larger).
\<close>

fun py_min :: "Version list \<Rightarrow> error + Version" where
  "py_min [] = Inl ValueError"
| "py_min (x # xs) = Inr (foldl (\<lambda>m v. if version_lt v m then v else m) x xs)"

fun py_max :: "Version list \<Rightarrow> error + Version" where
  "py_max [] = Inl ValueError"
| "py_max (x # xs) = Inr (foldl (\<lambda>m v. if version_lt m v then v else m) x xs)"

text \<open>
  The set of candidates is a list without duplicates, in the order of insertion. Python
  leaves the order in which a set is listed open; only the order of strings with equal
  keys in the result of \<^verbatim>\<open>generate_candidates\<close> depends on it.
\<close>

definition set_add :: "string \<Rightarrow> string list \<Rightarrow> string list" where
  "set_add x s = (if x \<in> set s then s else s @ [x])"

definition dotted :: "nat list \<Rightarrow> string" where
  "dotted parts = join ''.'' (map str_nat parts)"

text \<open>
  The loop \<^verbatim>\<open>for i in range(len(parts)-1, -1, -1)\<close> over the indices given: at the first
  positive component, decrement it, join the parts and stop.
\<close>

fun decrement_loop :: "nat list \<Rightarrow> nat list \<Rightarrow> string option" where
  "decrement_loop parts [] = None"
| "decrement_loop parts (i # is) =
     (if parts ! i > 0 then Some (dotted (parts[i := parts ! i - 1]))
      else decrement_loop parts is)"

text \<open>The truth value of \<^verbatim>\<open>pre_min\<close>, which is \<^verbatim>\<open>None\<close> or a string.\<close>

fun add_if_truthy :: "string option \<Rightarrow> string list \<Rightarrow> string list" where
  "add_if_truthy None s = s"
| "add_if_truthy (Some x) s = (if x \<noteq> [] then set_add x s else s)"

text \<open>\<^verbatim>\<open>list(v.release) + [0]*(len_max - len(v.release))\<close>.\<close>

definition pad_zeros :: "nat \<Rightarrow> nat list \<Rightarrow> nat list" where
  "pad_zeros len_max rel = rel @ replicate (len_max - length rel) 0"

text \<open>
  The loop \<^verbatim>\<open>for i in range(len_max)\<close> up to its \<^verbatim>\<open>break\<close>: the first index where the
  padded tuples differ. Both have length \<^verbatim>\<open>len_max\<close>, so every read is in range.
\<close>

fun first_diff :: "nat list \<Rightarrow> nat list \<Rightarrow> nat list \<Rightarrow> nat option" where
  "first_diff p q [] = None"
| "first_diff p q (i # is) = (if p ! i \<noteq> q ! i then Some i else first_diff p q is)"

text \<open>The loop over the items of \<^verbatim>\<open>by_major\<close>, stopping at the first exception.\<close>

fun for_groups ::
  "(Version list \<Rightarrow> string list \<Rightarrow> error + string list) \<Rightarrow> (nat \<times> Version list) list
     \<Rightarrow> string list \<Rightarrow> error + string list" where
  "for_groups body [] candidates = Inr candidates"
| "for_groups body ((major, grp) # by_major) candidates =
     (case body grp candidates of
        Inl e \<Rightarrow> Inl e
      | Inr candidates' \<Rightarrow> for_groups body by_major candidates')"

subsection \<open>\<^verbatim>\<open>scripts/test_ver.py\<close>: \<^verbatim>\<open>get_version_candidates\<close>\<close>

definition pre_min_tv :: "Version \<Rightarrow> string option" where
  "pre_min_tv min_v =
     (if release min_v \<noteq> []
      then (let parts = release min_v in decrement_loop parts (rev [0..<length parts]))
      else None)"

text \<open>
  The midpoint. When the components at the first difference are more than one apart, the
  component becomes their mean and the later ones are reset to zero. Otherwise the
  branch builds a list it never uses and ends in \<^verbatim>\<open>pass\<close>: nothing is added.
\<close>

definition mid_tv :: "Version \<Rightarrow> Version \<Rightarrow> string option" where
  "mid_tv min_v max_v =
     (if version_lt min_v max_v then
        (let len_max = max (length (release min_v)) (length (release max_v));
             min_parts = pad_zeros len_max (release min_v);
             max_parts = pad_zeros len_max (release max_v)
         in case first_diff min_parts max_parts [0..<len_max] of
              None \<Rightarrow> None
            | Some diff_index \<Rightarrow>
                (let val_min = min_parts ! diff_index;
                     val_max = max_parts ! diff_index
                 in if int val_max - int val_min > 1
                    then (let current_parts = min_parts[diff_index := (val_min + val_max) div 2]
                          in Some (dotted (foldl (\<lambda>ps k. ps[k := 0]) current_parts
                                             [diff_index + 1..<len_max])))
                    else None))
      else None)"

definition group_candidates_tv :: "Version list \<Rightarrow> string list \<Rightarrow> error + string list" where
  "group_candidates_tv grp candidates =
     (if grp = [] then Inr candidates
      else case py_min grp of
        Inl e \<Rightarrow> Inl e
      | Inr min_v \<Rightarrow>
          (case py_max grp of
             Inl e \<Rightarrow> Inl e
           | Inr max_v \<Rightarrow>
               (let c1 = add_if_truthy (pre_min_tv min_v) candidates;
                    c2 = set_add (str_version max_v) c1
                in Inr (case mid_tv min_v max_v of None \<Rightarrow> c2 | Some mid_ver \<Rightarrow> set_add mid_ver c2))))"

text \<open>The result is \<^verbatim>\<open>sorted(list(candidates))\<close>: the strings in the order of strings.\<close>

definition get_version_candidates :: "entry list \<Rightarrow> error + string list" where
  "get_version_candidates data =
     (let versions = collect_versions data in
      if versions = [] then Inr []
      else case for_groups group_candidates_tv (group_by_major versions) [] of
             Inl e \<Rightarrow> Inl e
           | Inr candidates \<Rightarrow> Inr (sort candidates))"

subsection \<open>\<^verbatim>\<open>scripts/verify_versions.py\<close>: \<^verbatim>\<open>generate_candidates\<close>\<close>

text \<open>
  When no component is positive the code reads \<^verbatim>\<open>parts[0]\<close>, which raises
  \<^verbatim>\<open>IndexError\<close> on an empty release.
\<close>

definition pre_min_vv :: "Version \<Rightarrow> error + string option" where
  "pre_min_vv min_v =
     (let parts = release min_v in
      case decrement_loop parts (rev [0..<length parts]) of
        Some pre_min \<Rightarrow> Inr (Some pre_min)
      | None \<Rightarrow> (case parts of [] \<Rightarrow> Inl IndexError | p0 # _ \<Rightarrow> Inr None))"

definition mid_parts_vv :: "Version \<Rightarrow> Version \<Rightarrow> nat list option" where
  "mid_parts_vv min_v max_v =
     (let len_max = max (length (release min_v)) (length (release max_v));
          p_min = pad_zeros len_max (release min_v);
          p_max = pad_zeros len_max (release max_v)
      in case first_diff p_min p_max [0..<len_max] of
           None \<Rightarrow> None
         | Some i \<Rightarrow>
             (let diff = int (p_max ! i) - int (p_min ! i) in
              if diff > 1
              then Some (take i p_min @ [nat (int (p_min ! i) + diff div 2)]
                           @ replicate (len_max - i - 1) 0)
              else Some (take (i + 1) p_min @ [5])))"

text \<open>\<^verbatim>\<open>while len(mid_parts) > 3 and mid_parts[-1] == 0: mid_parts.pop()\<close>.\<close>

function trim_zeros :: "nat list \<Rightarrow> nat list" where
  "trim_zeros mid_parts =
     (if length mid_parts > 3 \<and> last mid_parts = 0 then trim_zeros (butlast mid_parts)
      else mid_parts)"
  by pat_completeness auto
termination
  by (relation "measure length") auto

declare trim_zeros.simps [simp del]

definition mid_vv :: "Version \<Rightarrow> Version \<Rightarrow> string option" where
  "mid_vv min_v max_v =
     (if version_lt min_v max_v then
        (case mid_parts_vv min_v max_v of
           None \<Rightarrow> None
         | Some mid_parts \<Rightarrow>
             if mid_parts \<noteq> [] then Some (dotted (trim_zeros mid_parts)) else None)
      else None)"

definition group_candidates_vv :: "Version list \<Rightarrow> string list \<Rightarrow> error + string list" where
  "group_candidates_vv grp final_candidates =
     (if grp = [] then Inr final_candidates
      else case py_min grp of
        Inl e \<Rightarrow> Inl e
      | Inr min_v \<Rightarrow>
          (case py_max grp of
             Inl e \<Rightarrow> Inl e
           | Inr max_v \<Rightarrow>
               (let c1 = set_add (str_version min_v) final_candidates;
                    c2 = set_add (str_version max_v) c1
                in case pre_min_vv min_v of
                     Inl e \<Rightarrow> Inl e
                   | Inr pre_min \<Rightarrow>
                       (let c3 = add_if_truthy pre_min c2
                        in Inr (case mid_vv min_v max_v of
                                  None \<Rightarrow> c3
                                | Some mid_v \<Rightarrow> set_add mid_v c3)))))"

text \<open>
  \<^verbatim>\<open>sorted(xs, key=lambda x: parse_version(x))\<close>: the keys are computed first, which raises
  \<^verbatim>\<open>InvalidVersion\<close> if a string does not parse; the sort is stable.
\<close>

definition sorted_by_version :: "string list \<Rightarrow> error + string list" where
  "sorted_by_version xs =
     (case those (map parse_version xs) of
        None \<Rightarrow> Inl InvalidVersion
      | Some vs \<Rightarrow> Inr (map snd (sort_key (\<lambda>(v, x). cmpkey v) (zip vs xs))))"

definition generate_candidates :: "entry list \<Rightarrow> error + string list" where
  "generate_candidates data =
     (let versions = collect_versions data in
      if versions = [] then Inr []
      else case for_groups group_candidates_vv (group_by_major versions) [] of
             Inl e \<Rightarrow> Inl e
           | Inr final_candidates \<Rightarrow> sorted_by_version final_candidates)"

text \<open>A record with both bounds, as in the scripts' own test data.\<close>

definition bounds :: "string \<Rightarrow> string \<Rightarrow> entry" where
  "bounds d r = [''deprecated_in'' \<mapsto> d, ''removed_in'' \<mapsto> r]"

subsection \<open>Notions used in the statements\<close>

text \<open>The version that a dotted string of integers parses to: a release and nothing else.\<close>

definition rel_version :: "nat list \<Rightarrow> Version" where
  "rel_version r = \<lparr> epoch = 0, release = r, dev = None, pre = None, post = None, local_v = None \<rparr>"

text \<open>
  What every parsed version satisfies: the release is not empty, and a string part of the
  local version is a non-empty lower-case alphanumeric string that is not a number.
\<close>

fun wf_local_part :: "local_part \<Rightarrow> bool" where
  "wf_local_part (LInt n) = True"
| "wf_local_part (LStr s) = (s \<noteq> [] \<and> list_all is_alnum s \<and> \<not> list_all is_digit s)"

definition wf_version :: "Version \<Rightarrow> bool" where
  "wf_version v \<longleftrightarrow>
     release v \<noteq> [] \<and>
     (case local_v v of None \<Rightarrow> True | Some ps \<Rightarrow> ps \<noteq> [] \<and> list_all wf_local_part ps)"

text \<open>The post-release and local pieces of \<^verbatim>\<open>Version.__str__\<close>, and the characters they are made of.\<close>

definition str_post :: "nat option \<Rightarrow> string" where
  "str_post p = (case p of None \<Rightarrow> [] | Some n \<Rightarrow> ''.post'' @ str_nat n)"

definition str_local :: "local_part list option \<Rightarrow> string" where
  "str_local l = (case l of None \<Rightarrow> [] | Some ps \<Rightarrow> ''+'' @ join ''.'' (map str_local_part ps))"

definition tail_chr :: "char \<Rightarrow> bool" where
  "tail_chr c \<longleftrightarrow> is_alnum c \<or> c = CHR ''.'' \<or> c = CHR ''+''"

text \<open>
  Removing from a record every bound that parses to a pre-release: the input of the
  second run that the exclusion of pre-releases is stated with.
\<close>

definition is_prerelease_bound :: "string \<Rightarrow> bool" where
  "is_prerelease_bound s = (case parse_version s of None \<Rightarrow> False | Some v \<Rightarrow> is_prerelease v)"

definition drop_prerelease_bounds :: "entry \<Rightarrow> entry" where
  "drop_prerelease_bounds entry =
     (\<lambda>key. case entry key of
               None \<Rightarrow> None
             | Some v_str \<Rightarrow> if is_prerelease_bound v_str then None else Some v_str)"

text \<open>
  The strings that one group contributes to the result, given its minimum and maximum: in
  \<^verbatim>\<open>get_version_candidates\<close> the pre-min if it is a non-empty string, the maximum and the
  midpoint if there is one; in \<^verbatim>\<open>generate_candidates\<close> the minimum as well.
\<close>

definition candidates_tv :: "Version \<Rightarrow> Version \<Rightarrow> string set" where
  "candidates_tv min_v max_v =
     (case pre_min_tv min_v of None \<Rightarrow> {} | Some x \<Rightarrow> if x \<noteq> [] then {x} else {})
     \<union> {str_version max_v}
     \<union> (case mid_tv min_v max_v of None \<Rightarrow> {} | Some x \<Rightarrow> {x})"

definition candidates_vv :: "Version \<Rightarrow> Version \<Rightarrow> string set" where
  "candidates_vv min_v max_v =
     {str_version min_v, str_version max_v}
     \<union> (case pre_min_tv min_v of None \<Rightarrow> {} | Some x \<Rightarrow> if x \<noteq> [] then {x} else {})
     \<union> (case mid_vv min_v max_v of None \<Rightarrow> {} | Some x \<Rightarrow> {x})"

definition group_kinds :: "(Version \<Rightarrow> Version \<Rightarrow> string set) \<Rightarrow> Version list \<Rightarrow> string set" where
  "group_kinds K g =
     (case py_min g of
        Inl e \<Rightarrow> {}
      | Inr min_v \<Rightarrow> (case py_max g of Inl e \<Rightarrow> {} | Inr max_v \<Rightarrow> K min_v max_v))"

section \<open>Properties of the library model\<close>

subsection \<open>Printing and reading decimal numerals\<close>

lemma is_digit_digit_chr: "d < 10 \<Longrightarrow> is_digit (digit_chr d)"
  by (simp add: is_digit_def digit_chr_def)

lemma digit_val_digit_chr: "d < 10 \<Longrightarrow> digit_val (digit_chr d) = d"
  by (simp add: digit_val_def digit_chr_def)

lemma str_nat_digits: "c \<in> set (str_nat n) \<Longrightarrow> is_digit c"
proof (induction n arbitrary: c rule: str_nat.induct)
  case (1 n)
  show ?case
  proof (cases "n < 10")
    case True
    with "1.prems" show ?thesis
      by (simp add: str_nat.simps [of n] is_digit_digit_chr)
  next
    case False
    with "1.prems" have "c \<in> set (str_nat (n div 10)) \<or> c = digit_chr (n mod 10)"
      by (auto simp: str_nat.simps [of n])
    then show ?thesis
      using "1.IH" [OF False] by (auto simp: is_digit_digit_chr)
  qed
qed

lemma str_nat_nonempty: "str_nat n \<noteq> []"
  by (subst str_nat.simps) simp

lemma int_of_digits_snoc: "int_of_digits (s @ [c]) = 10 * int_of_digits s + digit_val c"
  by (simp add: int_of_digits_def)

lemma int_of_digits_str_nat: "int_of_digits (str_nat n) = n"
proof (induction n rule: str_nat.induct)
  case (1 n)
  show ?case
  proof (cases "n < 10")
    case True
    then show ?thesis
      by (simp add: str_nat.simps [of n] int_of_digits_def digit_val_digit_chr)
  next
    case False
    then show ?thesis
      using "1.IH" by (simp add: str_nat.simps [of n] int_of_digits_snoc digit_val_digit_chr)
  qed
qed

lemma takeWhile_run:
  "\<forall>c\<in>set seg. X c \<Longrightarrow> r = [] \<or> \<not> X (hd r) \<Longrightarrow> takeWhile X (seg @ r) = seg"
  by (cases r) (auto simp: takeWhile_append2)

lemma dropWhile_run:
  "\<forall>c\<in>set seg. X c \<Longrightarrow> r = [] \<or> \<not> X (hd r) \<Longrightarrow> dropWhile X (seg @ r) = r"
  by (cases r) (auto simp: dropWhile_append2)

lemma parse_segments_last:
  assumes "\<forall>c\<in>set seg. X c"
    and "rest = [] \<or> \<not> X (hd rest) \<and> \<not> (S (hd rest) \<and> tl rest \<noteq> [] \<and> X (hd (tl rest)))"
  shows "parse_segments X S (seg @ rest) = ([seg], rest)"
proof -
  have r: "rest = [] \<or> \<not> X (hd rest)"
    using assms(2) by blast
  have t: "takeWhile X (seg @ rest) = seg" and d: "dropWhile X (seg @ rest) = rest"
    using assms(1) r by (rule takeWhile_run, rule dropWhile_run)
  show ?thesis
    using assms(2)
    by (subst parse_segments.simps) (auto simp: t d Let_def split: list.splits)
qed

lemma parse_segments_join:
  assumes "S sepc" and "\<not> X sepc"
    and "rest = [] \<or> \<not> X (hd rest) \<and> \<not> (S (hd rest) \<and> tl rest \<noteq> [] \<and> X (hd (tl rest)))"
  shows "segs \<noteq> [] \<Longrightarrow> \<forall>seg\<in>set segs. seg \<noteq> [] \<and> (\<forall>c\<in>set seg. X c) \<Longrightarrow>
    parse_segments X S (join [sepc] segs @ rest) = (segs, rest)"
proof (induction segs)
  case Nil
  then show ?case by simp
next
  case (Cons x xs)
  have x: "\<forall>c\<in>set x. X c"
    using Cons.prems(2) by simp
  show ?case
  proof (cases xs)
    case Nil
    then show ?thesis
      using x assms(3) by (simp add: parse_segments_last)
  next
    case (Cons y ys)
    let ?tail = "join [sepc] xs @ rest"
    have IH: "parse_segments X S ?tail = (xs, rest)"
      using Cons.IH Cons.prems(2) Cons by simp
    have "y \<noteq> []" and "\<forall>c\<in>set y. X c"
      using Cons.prems(2) Cons by auto
    then have hd_tail: "?tail \<noteq> [] \<and> X (hd ?tail)"
      using Cons by (cases ys; cases y) auto
    have nx: "sepc # ?tail = [] \<or> \<not> X (hd (sepc # ?tail))"
      using assms(2) by simp
    have t: "takeWhile X (x @ sepc # ?tail) = x"
      and d: "dropWhile X (x @ sepc # ?tail) = sepc # ?tail"
      using x nx by (rule takeWhile_run, rule dropWhile_run)
    have "parse_segments X S (x @ sepc # ?tail) = (x # xs, rest)"
      using hd_tail assms(1)
      by (subst parse_segments.simps) (auto simp: t d IH Let_def split: list.splits)
    then show ?thesis
      using Cons by simp
  qed
qed

lemma parse_segments_wf:
  "parse_segments X S s = (segs, rest) \<Longrightarrow> s \<noteq> [] \<Longrightarrow> X (hd s) \<Longrightarrow>
     segs \<noteq> [] \<and> (\<forall>seg\<in>set segs. seg \<noteq> [] \<and> (\<forall>c\<in>set seg. X c))"
proof (induction X S s arbitrary: segs rest rule: parse_segments.induct)
  case (1 X S s)
  have seg: "takeWhile X s \<noteq> [] \<and> (\<forall>c\<in>set (takeWhile X s). X c)"
    using "1.prems"(2,3) by (cases s) (auto dest: set_takeWhileD)
  show ?case
  proof (cases "dropWhile X s")
    case Nil
    with "1.prems"(1) seg show ?thesis
      by (subst (asm) parse_segments.simps) (auto simp: Let_def)
  next
    case (Cons c r')
    show ?thesis
    proof (cases r')
      case Nil
      with Cons "1.prems"(1) seg show ?thesis
        by (subst (asm) parse_segments.simps) (auto simp: Let_def)
    next
      case (Cons d ds)
      note r' = this
      show ?thesis
      proof (cases "S c \<and> X d")
        case True
        obtain segs' rest' where p: "parse_segments X S r' = (segs', rest')"
          by (cases "parse_segments X S r'")
        have "segs' \<noteq> [] \<and> (\<forall>seg\<in>set segs'. seg \<noteq> [] \<and> (\<forall>c\<in>set seg. X c))"
          using "1.IH" [OF refl refl \<open>dropWhile X s = c # r'\<close> r' True p] r' True by simp
        moreover have "segs = takeWhile X s # segs'"
          using "1.prems"(1) True r' \<open>dropWhile X s = c # r'\<close> p
          by (subst (asm) parse_segments.simps) (auto simp: Let_def)
        ultimately show ?thesis using seg by auto
      next
        case False
        with r' \<open>dropWhile X s = c # r'\<close> "1.prems"(1) seg show ?thesis
          by (subst (asm) parse_segments.simps) (auto simp: Let_def)
      qed
    qed
  qed
qed

lemma str_version_final:
  "pre v = None \<Longrightarrow> dev v = None \<Longrightarrow>
   str_version v = (if epoch v \<noteq> 0 then str_nat (epoch v) @ ''!'' else [])
     @ dotted (release v) @ str_post (post v) @ str_local (local_v v)"
  by (simp add: str_version_def dotted_def str_post_def str_local_def)

lemma is_digit_chars [simp]:
  "\<not> is_digit CHR ''.''" "\<not> is_digit CHR ''+''" "\<not> is_digit CHR ''!''" "\<not> is_digit CHR ''-''"
  "\<not> is_digit CHR ''p''" "\<not> is_digit CHR ''v''"
  by (simp_all add: is_digit_def)

lemma is_digit_not_space: "is_digit c \<Longrightarrow> \<not> is_space c"
  by (auto simp: is_digit_def is_space_def)

lemma is_digit_alnum: "is_digit c \<Longrightarrow> is_alnum c"
  by (simp add: is_alnum_def)

lemma is_alnum_lower: "is_alnum c \<Longrightarrow> lower_chr c = c"
  by (auto simp: is_alnum_def is_digit_def lower_chr_def)

lemma is_alnum_chars [simp]:
  "\<not> is_alnum CHR ''.''" "\<not> is_alnum CHR ''+''" "\<not> is_alnum CHR ''!''" "\<not> is_alnum CHR ''-''"
  "is_alnum CHR ''p''" "is_alnum CHR ''o''" "is_alnum CHR ''s''" "is_alnum CHR ''t''"
  by (simp_all add: is_alnum_def is_digit_def)

lemma hd_str_nat_digit: "is_digit (hd (str_nat n @ r))"
  using str_nat_nonempty [of n] str_nat_digits [of _ n] by (cases "str_nat n") auto

lemma parse_epoch_some: "parse_epoch (str_nat e @ CHR ''!'' # t) = (e, t)"
proof -
  have nx: "CHR ''!'' # t = [] \<or> \<not> is_digit (hd (CHR ''!'' # t))"
    by simp
  have ds: "\<forall>c\<in>set (str_nat e). is_digit c"
    by (simp add: str_nat_digits)
  have "takeWhile is_digit (str_nat e @ CHR ''!'' # t) = str_nat e"
    and "dropWhile is_digit (str_nat e @ CHR ''!'' # t) = CHR ''!'' # t"
    using ds nx by (rule takeWhile_run, rule dropWhile_run)
  then show ?thesis
    by (simp add: parse_epoch_def str_nat_nonempty int_of_digits_str_nat)
qed

lemma parse_epoch_none: "CHR ''!'' \<notin> set s \<Longrightarrow> parse_epoch s = (0, s)"
proof -
  assume a: "CHR ''!'' \<notin> set s"
  have "c \<noteq> CHR ''!''" if "dropWhile is_digit s = c # r" for c r
  proof -
    have "c \<in> set (dropWhile is_digit s)" using that by simp
    then show ?thesis using a set_dropWhileD by fastforce
  qed
  then show ?thesis
    by (auto simp: parse_epoch_def Let_def split: list.splits)
qed

lemma set_join: "set (join sep xs) \<subseteq> set sep \<union> \<Union> (set ` set xs)"
  by (induction sep xs rule: join.induct) auto

lemma tail_chr_dotted: "c \<in> set (dotted r) \<Longrightarrow> tail_chr c"
  using set_join [of "''.''" "map str_nat r"]
  by (auto simp: dotted_def tail_chr_def dest: str_nat_digits is_digit_alnum)

lemma tail_chr_post: "c \<in> set (str_post p) \<Longrightarrow> tail_chr c"
  by (auto simp: str_post_def tail_chr_def split: option.splits dest: str_nat_digits is_digit_alnum)

lemma str_local_part_alnum: "wf_local_part p \<Longrightarrow> c \<in> set (str_local_part p) \<Longrightarrow> is_alnum c"
  by (cases p) (auto simp: list_all_iff dest: str_nat_digits is_digit_alnum)

lemma str_local_part_nonempty: "wf_local_part p \<Longrightarrow> str_local_part p \<noteq> []"
  by (cases p) (auto simp: str_nat_nonempty)

lemma tail_chr_local:
  assumes "case l of None \<Rightarrow> True | Some ps \<Rightarrow> ps \<noteq> [] \<and> list_all wf_local_part ps"
    and "c \<in> set (str_local l)"
  shows "tail_chr c"
proof (cases l)
  case None
  with assms(2) show ?thesis by (simp add: str_local_def)
next
  case (Some ps)
  with assms(2) have "c = CHR ''+'' \<or> c \<in> set (join ''.'' (map str_local_part ps))"
    by (auto simp: str_local_def)
  then show ?thesis
    using set_join [of "''.''" "map str_local_part ps"] assms(1) Some
    by (auto simp: tail_chr_def list_all_iff dest: str_local_part_alnum)
qed

lemma tail_chr_lower: "tail_chr c \<Longrightarrow> lower_chr c = c"
  unfolding tail_chr_def
proof (elim disjE)
  assume "is_alnum c"
  then show ?thesis by (rule is_alnum_lower)
qed (simp_all add: lower_chr_def)

lemma tail_chr_not_bang: "tail_chr c \<Longrightarrow> c \<noteq> CHR ''!''"
  by (auto simp: tail_chr_def)

lemma is_sep_chars [simp]:
  "is_sep CHR ''.''" "\<not> is_sep CHR ''+''" "is_dot CHR ''.''" "\<not> is_dot CHR ''+''"
  by (simp_all add: is_sep_def is_dot_def)

lemma is_digit_not_sep: "is_digit c \<Longrightarrow> \<not> is_sep c"
  by (auto simp: is_digit_def is_sep_def)

lemma str_local_cases:
  "str_local l = [] \<or> (\<exists>t. str_local l = CHR ''+'' # t)"
  by (simp add: str_local_def split: option.splits)

lemma str_post_cases:
  "str_post p = [] \<or> (\<exists>n. p = Some n \<and> str_post p = ''.post'' @ str_nat n)"
  by (simp add: str_post_def split: option.splits)

lemma release_rest_ok:
  fixes p l
  defines "rest \<equiv> str_post p @ str_local l"
  shows "rest = [] \<or> \<not> is_digit (hd rest) \<and> \<not> (is_dot (hd rest) \<and> tl rest \<noteq> [] \<and> is_digit (hd (tl rest)))"
  using str_post_cases [of p] str_local_cases [of l]
  by (auto simp: rest_def)

lemma parse_release_dotted:
  assumes "r \<noteq> []"
  shows "parse_segments is_digit is_dot (dotted r @ str_post p @ str_local l)
           = (map str_nat r, str_post p @ str_local l)"
proof -
  have "parse_segments is_digit is_dot (join [CHR ''.''] (map str_nat r) @ (str_post p @ str_local l))
          = (map str_nat r, str_post p @ str_local l)"
    using assms
    by (intro parse_segments_join release_rest_ok) (auto simp: str_nat_nonempty str_nat_digits)
  then show ?thesis by (simp add: dotted_def)
qed

lemma parse_pre_absent: "parse_pre (str_post p @ str_local l) = (None, str_post p @ str_local l)"
  using str_post_cases [of p] str_local_cases [of l]
  by (auto simp: parse_pre_def letter_segment_def opt_sep_def)

lemma parse_post_str:
  "parse_post (str_post p @ str_local l) = (map_option (Pair ''post'') p, str_local l)"
proof (cases p)
  case None
  then show ?thesis
    using str_local_cases [of l]
    by (auto simp: str_post_def parse_post_def letter_segment_def opt_sep_def)
next
  case (Some n)
  have nx: "str_local l = [] \<or> \<not> is_digit (hd (str_local l))"
    using str_local_cases [of l] by auto
  have ds: "\<forall>c\<in>set (str_nat n). is_digit c"
    by (simp add: str_nat_digits)
  have t: "takeWhile is_digit (str_nat n @ str_local l) = str_nat n"
    and d: "dropWhile is_digit (str_nat n @ str_local l) = str_local l"
    using ds nx by (rule takeWhile_run, rule dropWhile_run)
  have o: "opt_sep (str_nat n @ str_local l) = str_nat n @ str_local l"
    using hd_str_nat_digit [of n "str_local l"] str_nat_nonempty [of n]
    by (cases "str_nat n") (auto simp: opt_sep_def is_digit_not_sep)
  have o': "opt_sep (CHR ''.'' # u) = u" for u
    by (simp add: opt_sep_def)
  show ?thesis
    using Some
    by (simp add: str_post_def parse_post_def letter_segment_def o' o opt_number_def t d
        str_nat_nonempty parse_letter_version_def int_of_digits_str_nat)
qed

lemma parse_dev_absent: "parse_dev (str_local l) = (None, str_local l)"
  using str_local_cases [of l]
  by (auto simp: parse_dev_def letter_segment_def opt_sep_def)

lemma local_part_of_str: "wf_local_part p \<Longrightarrow> local_part_of (str_local_part p) = p"
  by (cases p) (auto simp: local_part_of_def list_all_iff str_nat_digits int_of_digits_str_nat)

lemma parse_local_str:
  assumes "case l of None \<Rightarrow> True | Some ps \<Rightarrow> ps \<noteq> [] \<and> list_all wf_local_part ps"
  shows "parse_local (str_local l) = (l, [])"
proof (cases l)
  case None
  then show ?thesis by (simp add: str_local_def parse_local_def)
next
  case (Some ps)
  let ?segs = "map str_local_part ps"
  have ps: "ps \<noteq> []" "\<forall>p\<in>set ps. wf_local_part p"
    using assms Some by (auto simp: list_all_iff)
  have segs: "?segs \<noteq> []" "\<forall>seg\<in>set ?segs. seg \<noteq> [] \<and> (\<forall>c\<in>set seg. is_alnum c)"
    using ps by (auto simp: str_local_part_nonempty str_local_part_alnum)
  have "parse_segments is_alnum is_sep (join [CHR ''.''] ?segs @ []) = (?segs, [])"
    using segs by (intro parse_segments_join) auto
  then have p: "parse_segments is_alnum is_sep (join ''.'' ?segs) = (?segs, [])"
    by simp
  obtain d ds where j: "join ''.'' ?segs = d # ds" and d: "is_alnum d"
  proof -
    obtain q qs where "ps = q # qs" using ps(1) by (cases ps) auto
    moreover obtain d ds where "str_local_part q = d # ds"
      using ps(2) \<open>ps = q # qs\<close> str_local_part_nonempty [of q] by (cases "str_local_part q") auto
    moreover have "is_alnum d"
      using ps(2) \<open>ps = q # qs\<close> \<open>str_local_part q = d # ds\<close> str_local_part_alnum [of q d] by simp
    ultimately show ?thesis
      using that by (cases qs) auto
  qed
  have m: "map local_part_of ?segs = ps"
    using ps(2) by (induction ps) (auto simp: local_part_of_str)
  show ?thesis
    using Some d p m by (simp add: str_local_def parse_local_def j [symmetric]) (simp add: j)
qed

lemma dotted_Cons: "dotted (x # xs) = str_nat x @ (if xs = [] then [] else CHR ''.'' # dotted xs)"
  by (cases xs) (simp_all add: dotted_def)

lemma parse_str_version:
  assumes wf: "wf_version v" and pre: "pre v = None" and dev: "dev v = None"
  shows "parse_version (str_version v) = Some v"
proof -
  define T where "T = dotted (release v) @ str_post (post v) @ str_local (local_v v)"
  define E where "E = (if epoch v \<noteq> 0 then str_nat (epoch v) @ ''!'' else [])"
  have full: "str_version v = E @ T"
    using pre dev by (simp add: str_version_final T_def E_def)
  have rel: "release v \<noteq> []"
    and loc: "case local_v v of None \<Rightarrow> True | Some ps \<Rightarrow> ps \<noteq> [] \<and> list_all wf_local_part ps"
    using wf by (simp_all add: wf_version_def)
  have T_chr: "tail_chr c" if "c \<in> set T" for c
    using that loc by (auto simp: T_def dest: tail_chr_dotted tail_chr_post tail_chr_local)
  obtain x xs where r: "release v = x # xs"
    using rel by (cases "release v") auto
  have T_hd: "is_digit (hd T)" and T_ne: "T \<noteq> []"
    using hd_str_nat_digit [of x] str_nat_nonempty [of x]
    by (simp_all add: T_def r dotted_Cons)
  have full_hd: "is_digit (hd (E @ T))" and full_ne: "E @ T \<noteq> []"
    using T_hd T_ne hd_str_nat_digit [of "epoch v"] by (auto simp: E_def)
  have E_chr: "lower_chr c = c" if "c \<in> set E" for c
  proof -
    have "is_digit c \<or> c = CHR ''!''"
      using that by (auto simp: E_def split: if_splits dest: str_nat_digits)
    then show ?thesis
      by (auto simp: is_alnum_lower is_digit_alnum) (simp add: lower_chr_def)
  qed
  have s0: "map lower_chr (dropWhile is_space (E @ T)) = E @ T"
  proof -
    have "dropWhile is_space (E @ T) = E @ T"
      using full_hd full_ne by (cases "E @ T") (auto simp: is_digit_not_space)
    moreover have "map lower_chr (E @ T) = E @ T"
      using E_chr T_chr by (intro map_idI) (auto simp: tail_chr_lower)
    ultimately show ?thesis by simp
  qed
  have s1: "(case E @ T of [] \<Rightarrow> [] | c # r \<Rightarrow> if c = CHR ''v'' then r else E @ T) = E @ T"
    using full_hd full_ne by (cases "E @ T") auto
  have ep: "parse_epoch (E @ T) = (epoch v, T)"
  proof (cases "epoch v = 0")
    case True
    have "CHR ''!'' \<notin> set T"
      using T_chr tail_chr_not_bang by blast
    then show ?thesis
      using True by (simp add: E_def parse_epoch_none)
  next
    case False
    then show ?thesis
      by (simp add: E_def parse_epoch_some)
  qed
  obtain c cs where T_cons: "T = c # cs" and c: "is_digit c"
    using T_hd T_ne by (cases T) auto
  have seg: "parse_segments is_digit is_dot T
      = (map str_nat (release v), str_post (post v) @ str_local (local_v v))"
    unfolding T_def using rel by (rule parse_release_dotted)
  have ints: "map int_of_digits (map str_nat (release v)) = release v"
    by (simp add: int_of_digits_str_nat comp_def)
  have "parse_version (E @ T)
      = Some \<lparr> epoch = epoch v, release = release v, dev = None, pre = None, post = post v,
               local_v = local_v v \<rparr>"
    unfolding parse_version_def s0 s1 Let_def ep
    using ints
    by (simp add: T_cons c seg [unfolded T_cons] parse_pre_absent parse_post_str parse_dev_absent
          parse_local_str [OF loc] option.map_comp comp_def option.map_ident)
  then show ?thesis
    using pre dev by (simp add: full)
qed

lemma local_part_of_wf: "part \<noteq> [] \<Longrightarrow> \<forall>c\<in>set part. is_alnum c \<Longrightarrow> wf_local_part (local_part_of part)"
  by (simp add: local_part_of_def list_all_iff)

lemma parse_local_wf:
  assumes "parse_local s = (lo, rest)"
  shows "case lo of None \<Rightarrow> True | Some ps \<Rightarrow> ps \<noteq> [] \<and> list_all wf_local_part ps"
proof (cases lo)
  case None
  then show ?thesis by simp
next
  case (Some ps)
  then obtain c d ds where s: "s = c # d # ds" and d: "is_alnum d"
    and ps: "ps = map local_part_of (fst (parse_segments is_alnum is_sep (d # ds)))"
    using assms
    by (auto simp: parse_local_def split: list.splits if_splits prod.splits)
  obtain parts r where p: "parse_segments is_alnum is_sep (d # ds) = (parts, r)"
    by (cases "parse_segments is_alnum is_sep (d # ds)")
  have "parts \<noteq> [] \<and> (\<forall>seg\<in>set parts. seg \<noteq> [] \<and> (\<forall>c\<in>set seg. is_alnum c))"
    using parse_segments_wf [OF p] d by simp
  then show ?thesis
    using Some ps p by (auto simp: list_all_iff local_part_of_wf)
qed

lemma parse_version_wf:
  assumes "parse_version s = Some v"
  shows "wf_version v"
proof -
  define s0 where "s0 = map lower_chr (dropWhile is_space s)"
  define s1 where "s1 = (case s0 of [] \<Rightarrow> [] | c # r \<Rightarrow> if c = CHR ''v'' then r else s0)"
  obtain ep s2 where e: "parse_epoch s1 = (ep, s2)"
    by (cases "parse_epoch s1")
  obtain rel s3 where r: "parse_segments is_digit is_dot s2 = (rel, s3)"
    by (cases "parse_segments is_digit is_dot s2")
  obtain pr s4 where p4: "parse_pre s3 = (pr, s4)" by (cases "parse_pre s3")
  obtain po s5 where p5: "parse_post s4 = (po, s5)" by (cases "parse_post s4")
  obtain de s6 where p6: "parse_dev s5 = (de, s6)" by (cases "parse_dev s5")
  obtain lo s7 where p7: "parse_local s6 = (lo, s7)" by (cases "parse_local s6")
  have v: "s2 \<noteq> [] \<and> is_digit (hd s2) \<and> release v = map int_of_digits rel \<and> local_v v = lo"
  proof (cases s2)
    case Nil
    then show ?thesis
      using assms
      unfolding parse_version_def Let_def s0_def [symmetric] s1_def [symmetric]
      by (simp add: e)
  next
    case (Cons c cs)
    show ?thesis
      using assms
      unfolding parse_version_def Let_def s0_def [symmetric] s1_def [symmetric]
      by (auto simp: e Cons r [unfolded Cons] p4 p5 p6 p7 split: if_splits)
  qed
  then have "rel \<noteq> []"
    using parse_segments_wf [OF r] by simp
  then show ?thesis
    using v parse_local_wf [OF p7] by (simp add: wf_version_def)
qed

lemma parse_rel_version: "parts \<noteq> [] \<Longrightarrow> parse_version (dotted parts) = Some (rel_version parts)"
  using parse_str_version [of "rel_version parts"]
  by (simp add: rel_version_def wf_version_def str_version_def dotted_def)

lemma parse_str_parsed:
  "parse_version s = Some v \<Longrightarrow> \<not> is_prerelease v \<Longrightarrow> parse_version (str_version v) = Some v"
proof -
  assume p: "parse_version s = Some v" and "\<not> is_prerelease v"
  then have "pre v = None" and "dev v = None"
    unfolding is_prerelease_def by blast+
  then show ?thesis
    using parse_version_wf [OF p] by (rule parse_str_version [rotated])
qed

section \<open>Properties of the two scripts\<close>

subsection \<open>The order of versions\<close>









lemma version_lt_epoch: "epoch a < epoch b \<Longrightarrow> version_lt a b"
  by (simp add: version_lt_def cmpkey_def)


lemma rel_version_simps [simp]:
  "epoch (rel_version r) = 0" "release (rel_version r) = r" "\<not> is_prerelease (rel_version r)"
  by (simp_all add: rel_version_def is_prerelease_def)



lemma decrement_loop_Some:
  "decrement_loop parts (rev [0..<n]) = Some s \<longleftrightarrow>
     (\<exists>i<n. parts ! i > 0 \<and> (\<forall>j. i < j \<and> j < n \<longrightarrow> parts ! j = 0)
        \<and> s = dotted (parts[i := parts ! i - 1]))"
proof (induction n)
  case 0
  then show ?case by simp
next
  case (Suc n)
  show ?case
  proof (cases "parts ! n > 0")
    case True
    have "(\<exists>i<Suc n. parts ! i > 0 \<and> (\<forall>j. i < j \<and> j < Suc n \<longrightarrow> parts ! j = 0)
        \<and> s = dotted (parts[i := parts ! i - 1])) \<longleftrightarrow> s = dotted (parts[n := parts ! n - 1])"
      (is "?L \<longleftrightarrow> ?R")
    proof
      assume ?L
      then obtain i where i: "i < Suc n" "\<forall>j. i < j \<and> j < Suc n \<longrightarrow> parts ! j = 0"
        "s = dotted (parts[i := parts ! i - 1])" by blast
      have "i = n"
      proof (rule ccontr)
        assume "i \<noteq> n"
        then have "i < n" using i(1) by simp
        then have "parts ! n = 0" using i(2) by simp
        then show False using True by simp
      qed
      then show ?R using i(3) by simp
    next
      assume ?R
      then show ?L using True by auto
    qed
    then show ?thesis using True by auto
  next
    case False
    have "(\<exists>i<Suc n. parts ! i > 0 \<and> (\<forall>j. i < j \<and> j < Suc n \<longrightarrow> parts ! j = 0)
        \<and> s = dotted (parts[i := parts ! i - 1]))
      \<longleftrightarrow> (\<exists>i<n. parts ! i > 0 \<and> (\<forall>j. i < j \<and> j < n \<longrightarrow> parts ! j = 0)
        \<and> s = dotted (parts[i := parts ! i - 1]))"
      using False by (auto simp: less_Suc_eq)
    then show ?thesis using False Suc.IH by simp
  qed
qed




lemma first_diff_Some:
  "first_diff p q [k..<n] = Some i \<Longrightarrow>
     k \<le> i \<and> i < n \<and> p ! i \<noteq> q ! i \<and> (\<forall>j. k \<le> j \<and> j < i \<longrightarrow> p ! j = q ! j)"
proof (induction "n - k" arbitrary: k)
  case 0
  then show ?case by simp
next
  case (Suc d)
  then have kn: "k < n" by simp
  show ?case
  proof (cases "p ! k \<noteq> q ! k")
    case True
    then show ?thesis
      using Suc.prems kn by (simp add: upt_conv_Cons)
  next
    case False
    then have "first_diff p q [Suc k..<n] = Some i"
      using Suc.prems kn by (simp add: upt_conv_Cons)
    moreover have "d = n - Suc k"
      using Suc.hyps(2) by simp
    ultimately have "Suc k \<le> i \<and> i < n \<and> p ! i \<noteq> q ! i \<and> (\<forall>j. Suc k \<le> j \<and> j < i \<longrightarrow> p ! j = q ! j)"
      using Suc.hyps(1) by blast
    then show ?thesis
      using False by (metis Suc_leD Suc_leI le_neq_implies_less)
  qed
qed

lemma length_pad_zeros: "length rel \<le> n \<Longrightarrow> length (pad_zeros n rel) = n"
  by (simp add: pad_zeros_def)

lemma foldl_zero_length: "length (foldl (\<lambda>ps k. ps[k := 0::nat]) xs ks) = length xs"
  by (induction ks arbitrary: xs) auto




lemma trim_zeros_nonempty: "xs \<noteq> [] \<Longrightarrow> trim_zeros xs \<noteq> []"
proof (induction xs rule: trim_zeros.induct)
  case (1 xs)
  show ?case
  proof (cases "length xs > 3 \<and> last xs = 0")
    case True
    then have "butlast xs \<noteq> []"
      by (cases xs) auto
    then show ?thesis
      using "1.IH" True by (subst trim_zeros.simps) simp
  next
    case False
    then show ?thesis
      using "1.prems" by (subst trim_zeros.simps) auto
  qed
qed





subsection \<open>Collecting and grouping\<close>

lemma parse_version_empty: "parse_version [] = None"
  by code_simp

lemma bound_versions_iff:
  "v \<in> set (bound_versions e) \<longleftrightarrow>
     (\<exists>key\<in>{''deprecated_in'', ''removed_in''}. \<exists>s. e key = Some s \<and> parse_version s = Some v
        \<and> \<not> is_prerelease v)"
proof -
  define f where "f = (\<lambda>key.
       case e key of
         None \<Rightarrow> []
       | Some v_str \<Rightarrow>
           if v_str = [] then []
           else (case parse_version v_str of
                   None \<Rightarrow> []
                 | Some v \<Rightarrow> if \<not> is_prerelease v then [v] else []))"
  have f: "v \<in> set (f key) \<longleftrightarrow> (\<exists>s. e key = Some s \<and> parse_version s = Some v \<and> \<not> is_prerelease v)"
    for key
    unfolding f_def using parse_version_empty
    by (cases "e key") (auto split: option.splits)
  have "bound_versions e = f ''deprecated_in'' @ f ''removed_in''"
    unfolding bound_versions_def f_def by simp
  then show ?thesis
    using f by auto
qed

lemma collect_versions_iff:
  "v \<in> set (collect_versions data) \<longleftrightarrow>
     (\<exists>e\<in>set data. \<exists>key\<in>{''deprecated_in'', ''removed_in''}. \<exists>s. e key = Some s
        \<and> parse_version s = Some v \<and> \<not> is_prerelease v)"
  unfolding collect_versions_def set_concat using bound_versions_iff by auto

lemma collect_versions_parsed:
  "v \<in> set (collect_versions data) \<Longrightarrow> \<exists>s. parse_version s = Some v \<and> \<not> is_prerelease v"
  unfolding collect_versions_iff by blast

lemma add_to_group_inv:
  assumes "\<forall>(k, g)\<in>set by_major. g \<noteq> [] \<and> set g \<subseteq> S" and "v \<in> S"
  shows "\<forall>(k, g)\<in>set (add_to_group major v by_major). g \<noteq> [] \<and> set g \<subseteq> S"
  using assms by (induction major v by_major rule: add_to_group.induct) (auto split: if_splits)

lemma foldl_add_to_group_inv:
  assumes "\<forall>(k, g)\<in>set by_major. g \<noteq> [] \<and> set g \<subseteq> S" and "set vs \<subseteq> S"
  shows "\<forall>(k, g)\<in>set (foldl (\<lambda>by_major v. add_to_group (get_major v) v by_major) by_major vs).
           g \<noteq> [] \<and> set g \<subseteq> S"
  using assms
proof (induction vs arbitrary: by_major)
  case Nil
  then show ?case by simp
next
  case (Cons v vs)
  have "\<forall>(k, g)\<in>set (add_to_group (get_major v) v by_major). g \<noteq> [] \<and> set g \<subseteq> S"
    using Cons.prems by (intro add_to_group_inv) auto
  then show ?case
    using Cons.IH Cons.prems(2) by simp
qed

lemma group_by_major_inv:
  "(k, g) \<in> set (group_by_major vs) \<Longrightarrow> g \<noteq> [] \<and> set g \<subseteq> set vs"
  using foldl_add_to_group_inv [of "[]" "set vs" vs] by (auto simp: group_by_major_def)

lemma add_to_group_member:
  "\<exists>g. (major, g) \<in> set (add_to_group major v by_major) \<and> v \<in> set g"
proof (induction major v by_major rule: add_to_group.induct)
  case (1 major v)
  then show ?case by simp
next
  case (2 major v k g by_major)
  show ?case
  proof (cases "k = major")
    case True
    then have "(major, g @ [v]) \<in> set (add_to_group major v ((k, g) # by_major))"
      by simp
    then show ?thesis
      by (intro exI [of _ "g @ [v]"]) simp
  next
    case False
    then show ?thesis
      using 2 by auto
  qed
qed

lemma add_to_group_keeps:
  "(k, g) \<in> set by_major \<Longrightarrow> x \<in> set g \<Longrightarrow>
     \<exists>g'. (k, g') \<in> set (add_to_group major v by_major) \<and> x \<in> set g'"
proof (induction major v by_major rule: add_to_group.induct)
  case (1 major v)
  then show ?case by simp
next
  case (2 major v k' g0 by_major)
  show ?case
  proof (cases "(k, g) = (k', g0)")
    case True
    show ?thesis
    proof (cases "k' = major")
      case True
      with \<open>(k, g) = (k', g0)\<close> 2(3) show ?thesis
        by (intro exI [of _ "g0 @ [v]"]) simp
    next
      case False
      with \<open>(k, g) = (k', g0)\<close> 2(3) show ?thesis
        by (intro exI [of _ "g0"]) simp
    qed
  next
    case False
    then have in_rest: "(k, g) \<in> set by_major"
      using 2(2) by auto
    show ?thesis
    proof (cases "k' = major")
      case True
      then show ?thesis
        using in_rest 2(3) by (intro exI [of _ g]) simp
    next
      case False
      then obtain g' where "(k, g') \<in> set (add_to_group major v by_major)" "x \<in> set g'"
        using 2(1) in_rest 2(3) by blast
      then show ?thesis
        using False by (intro exI [of _ g']) simp
    qed
  qed
qed

lemma foldl_add_to_group_keeps:
  "(k, g) \<in> set by_major \<Longrightarrow> x \<in> set g \<Longrightarrow>
     \<exists>g'. (k, g') \<in> set (foldl (\<lambda>by_major v. add_to_group (get_major v) v by_major) by_major vs)
        \<and> x \<in> set g'"
proof (induction vs arbitrary: by_major g)
  case Nil
  then show ?case by auto
next
  case (Cons v vs)
  obtain g' where "(k, g') \<in> set (add_to_group (get_major v) v by_major)" "x \<in> set g'"
    using add_to_group_keeps [OF Cons.prems] by blast
  then show ?case
    using Cons.IH by simp
qed

lemma foldl_add_to_group_complete:
  "v \<in> set vs \<Longrightarrow>
     \<exists>g. (get_major v, g) \<in> set (foldl (\<lambda>by_major v. add_to_group (get_major v) v by_major) by_major vs)
       \<and> v \<in> set g"
proof (induction vs arbitrary: by_major)
  case Nil
  then show ?case by simp
next
  case (Cons w vs)
  show ?case
  proof (cases "v = w")
    case True
    obtain g where "(get_major v, g) \<in> set (add_to_group (get_major v) v by_major)" "v \<in> set g"
      using add_to_group_member by blast
    then show ?thesis
      using True foldl_add_to_group_keeps [of "get_major v" g _ v vs] by simp
  next
    case False
    then show ?thesis
      using Cons by simp
  qed
qed

lemma group_by_major_complete:
  "v \<in> set vs \<Longrightarrow> \<exists>g. (get_major v, g) \<in> set (group_by_major vs) \<and> v \<in> set g"
  unfolding group_by_major_def by (rule foldl_add_to_group_complete)

lemma foldl_select_mem: "foldl (\<lambda>m v. if P m v then v else m) x xs \<in> set (x # xs)"
proof (induction xs arbitrary: x)
  case Nil
  then show ?case by simp
next
  case (Cons a xs)
  have "foldl (\<lambda>m v. if P m v then v else m) (if P x a then a else x) xs
      \<in> set ((if P x a then a else x) # xs)"
    by (rule Cons.IH)
  then show ?case
    by (auto split: if_splits)
qed

lemma py_min_mem: "g \<noteq> [] \<Longrightarrow> \<exists>m. py_min g = Inr m \<and> m \<in> set g"
  using foldl_select_mem [of "\<lambda>m v. version_lt v m"] by (cases g) auto

lemma py_max_mem: "g \<noteq> [] \<Longrightarrow> \<exists>m. py_max g = Inr m \<and> m \<in> set g"
  using foldl_select_mem [of "\<lambda>m v. version_lt m v"] by (cases g) auto

subsection \<open>The candidates of one group\<close>

lemma set_set_add: "set (set_add x s) = insert x (set s)"
  by (auto simp: set_add_def)

lemma set_add_if_truthy:
  "set (add_if_truthy p s) = set s \<union> (case p of None \<Rightarrow> {} | Some x \<Rightarrow> if x \<noteq> [] then {x} else {})"
  by (cases p) (auto simp: set_set_add)

lemma pre_min_tv_dotted:
  "pre_min_tv m = Some s \<Longrightarrow> \<exists>parts. parts \<noteq> [] \<and> s = dotted parts"
proof -
  assume a: "pre_min_tv m = Some s"
  then have ne: "release m \<noteq> []"
    by (auto simp: pre_min_tv_def split: if_splits)
  then have "decrement_loop (release m) (rev [0..<length (release m)]) = Some s"
    using a by (simp add: pre_min_tv_def Let_def)
  then obtain i where "s = dotted ((release m)[i := release m ! i - 1])"
    unfolding decrement_loop_Some by blast
  then show ?thesis
    using ne by (intro exI [of _ "(release m)[i := release m ! i - 1]"]) simp
qed

lemma pre_min_vv_tv: "release m \<noteq> [] \<Longrightarrow> pre_min_vv m = Inr (pre_min_tv m)"
  by (cases "release m") (auto simp: pre_min_vv_def pre_min_tv_def Let_def split: option.splits)

lemma mid_tv_dotted:
  "mid_tv m M = Some s \<Longrightarrow> \<exists>parts. parts \<noteq> [] \<and> s = dotted parts"
proof -
  assume a: "mid_tv m M = Some s"
  define L where "L = max (length (release m)) (length (release M))"
  define p where "p = pad_zeros L (release m)"
  define q where "q = pad_zeros L (release M)"
  obtain i where i: "first_diff p q [0..<L] = Some i"
    and s: "s = dotted (foldl (\<lambda>ps k. ps[k := 0]) (p[i := (p ! i + q ! i) div 2]) [i + 1..<L])"
    using a unfolding mid_tv_def Let_def L_def [symmetric] p_def [symmetric] q_def [symmetric]
    by (auto split: if_splits option.splits)
  have "i < L"
    using first_diff_Some [OF i] by simp
  moreover have "length p = L"
    by (simp add: p_def L_def length_pad_zeros)
  ultimately have "foldl (\<lambda>ps k. ps[k := 0]) (p[i := (p ! i + q ! i) div 2]) [i + 1..<L] \<noteq> []"
    using foldl_zero_length [of "p[i := (p ! i + q ! i) div 2]" "[i + 1..<L]"]
    by (metis length_0_conv length_list_update not_less_zero)
  then show ?thesis
    using s by blast
qed

lemma mid_vv_dotted:
  "mid_vv m M = Some s \<Longrightarrow> \<exists>parts. parts \<noteq> [] \<and> s = dotted parts"
proof -
  assume "mid_vv m M = Some s"
  then obtain mp where "mp \<noteq> []" "s = dotted (trim_zeros mp)"
    by (auto simp: mid_vv_def split: if_splits option.splits)
  then show ?thesis
    using trim_zeros_nonempty by blast
qed

lemma dotted_parses:
  "parts \<noteq> [] \<Longrightarrow> \<exists>v. parse_version (dotted parts) = Some v \<and> \<not> is_prerelease v"
  using parse_rel_version by auto

lemma group_candidates_tv_result:
  assumes "py_min g = Inr mn" and "py_max g = Inr mx"
  shows "\<exists>c'. group_candidates_tv g c = Inr c' \<and>
     set c' = set c
       \<union> (case pre_min_tv mn of None \<Rightarrow> {} | Some x \<Rightarrow> if x \<noteq> [] then {x} else {})
       \<union> {str_version mx}
       \<union> (case mid_tv mn mx of None \<Rightarrow> {} | Some x \<Rightarrow> {x})"
proof -
  have "g \<noteq> []"
    using assms(1) by auto
  then show ?thesis
    using assms
    by (auto simp: group_candidates_tv_def Let_def set_set_add set_add_if_truthy
        split: option.splits)
qed

lemma group_candidates_vv_result:
  assumes "py_min g = Inr mn" and "py_max g = Inr mx" and "release mn \<noteq> []"
  shows "\<exists>c'. group_candidates_vv g c = Inr c' \<and>
     set c' = set c
       \<union> {str_version mn, str_version mx}
       \<union> (case pre_min_tv mn of None \<Rightarrow> {} | Some x \<Rightarrow> if x \<noteq> [] then {x} else {})
       \<union> (case mid_vv mn mx of None \<Rightarrow> {} | Some x \<Rightarrow> {x})"
proof -
  have "g \<noteq> []"
    using assms(1) by auto
  then show ?thesis
    using assms(1,2) pre_min_vv_tv [OF assms(3)]
    by (auto simp: group_candidates_vv_def Let_def set_set_add set_add_if_truthy
        split: option.splits)
qed

subsection \<open>The loop over the groups\<close>

lemma for_groups_result:
  assumes "\<And>k g c. (k, g) \<in> set by_major \<Longrightarrow> \<exists>c'. body g c = Inr c' \<and> set c' = set c \<union> K g"
  shows "\<exists>c'. for_groups body by_major c = Inr c' \<and> set c' = set c \<union> (\<Union>(k, g)\<in>set by_major. K g)"
  using assms
proof (induction by_major arbitrary: c)
  case Nil
  then show ?case by simp
next
  case (Cons kg by_major)
  obtain k g where kg: "kg = (k, g)"
    by (cases kg)
  obtain c1 where c1: "body g c = Inr c1" "set c1 = set c \<union> K g"
    using Cons.prems [of k g c] kg by auto
  obtain c' where "for_groups body by_major c1 = Inr c'"
    "set c' = set c1 \<union> (\<Union>(k, g)\<in>set by_major. K g)"
    using Cons.IH [of c1] Cons.prems by (metis list.set_intros(2))
  then show ?case
    using c1 kg by auto
qed

subsection \<open>Sorting by version\<close>

lemma those_map_Some:
  "\<forall>x\<in>set xs. f x \<noteq> None \<Longrightarrow> \<exists>ys. those (map f xs) = Some ys \<and> length ys = length xs"
  by (induction xs) auto

lemma sorted_by_version_result:
  assumes "\<forall>x\<in>set xs. parse_version x \<noteq> None"
  shows "\<exists>out. sorted_by_version xs = Inr out \<and> set out = set xs"
proof -
  obtain vs where vs: "those (map parse_version xs) = Some vs" "length vs = length xs"
    using those_map_Some [OF assms] by blast
  have "set (map snd (sort_key (\<lambda>(v, x). cmpkey v) (zip vs xs))) = set (map snd (zip vs xs))"
    by simp
  also have "\<dots> = set xs"
    using vs(2) by simp
  finally show ?thesis
    using vs(1) by (simp add: sorted_by_version_def)
qed

subsection \<open>The results of the two scripts\<close>

lemma group_by_major_Nil: "group_by_major [] = []"
  by (simp add: group_by_major_def)

lemma group_min_max:
  assumes "(k, g) \<in> set (group_by_major (collect_versions data))"
  shows "\<exists>mn mx. py_min g = Inr mn \<and> py_max g = Inr mx
     \<and> mn \<in> set (collect_versions data) \<and> mx \<in> set (collect_versions data)"
  using group_by_major_inv [OF assms] py_min_mem [of g] py_max_mem [of g] by blast

lemma collected_release_nonempty: "v \<in> set (collect_versions data) \<Longrightarrow> release v \<noteq> []"
  using collect_versions_parsed parse_version_wf wf_version_def by blast

lemma collected_str_parses:
  "v \<in> set (collect_versions data) \<Longrightarrow> parse_version (str_version v) = Some v \<and> \<not> is_prerelease v"
  using collect_versions_parsed parse_str_parsed by blast

lemma get_version_candidates_result:
  "\<exists>out. get_version_candidates data = Inr out
     \<and> set out = (\<Union>(k, g)\<in>set (group_by_major (collect_versions data)). group_kinds candidates_tv g)"
proof (cases "collect_versions data = []")
  case True
  then show ?thesis
    by (simp add: get_version_candidates_def group_by_major_Nil)
next
  case False
  let ?by_major = "group_by_major (collect_versions data)"
  have body: "\<exists>c'. group_candidates_tv g c = Inr c' \<and> set c' = set c \<union> group_kinds candidates_tv g"
    if kg: "(k, g) \<in> set ?by_major" for k g c
  proof -
    obtain mn mx where m: "py_min g = Inr mn" "py_max g = Inr mx"
      using group_min_max [OF kg] by blast
    show ?thesis
      using group_candidates_tv_result [OF m, of c] m
      by (simp add: group_kinds_def candidates_tv_def Un_assoc)
  qed
  obtain c' where "for_groups group_candidates_tv ?by_major [] = Inr c'"
    "set c' = set [] \<union> (\<Union>(k, g)\<in>set ?by_major. group_kinds candidates_tv g)"
    using for_groups_result [of ?by_major group_candidates_tv "group_kinds candidates_tv" "[]"] body
    by blast
  then show ?thesis
    using False by (simp add: get_version_candidates_def)
qed

lemma group_kinds_tv_parse:
  assumes "(k, g) \<in> set (group_by_major (collect_versions data))"
    and "s \<in> group_kinds candidates_tv g"
  shows "\<exists>v. parse_version s = Some v \<and> \<not> is_prerelease v"
proof -
  obtain mn mx where m: "py_min g = Inr mn" "py_max g = Inr mx"
    and mx: "mx \<in> set (collect_versions data)"
    using group_min_max [OF assms(1)] by blast
  have "pre_min_tv mn = Some s \<or> s = str_version mx \<or> mid_tv mn mx = Some s"
    using assms(2) m by (auto simp: group_kinds_def candidates_tv_def split: option.splits if_splits)
  then show ?thesis
    using collected_str_parses [OF mx] pre_min_tv_dotted [of mn s] mid_tv_dotted [of mn mx s]
      dotted_parses by blast
qed

lemma group_kinds_vv_parse:
  assumes "(k, g) \<in> set (group_by_major (collect_versions data))"
    and "s \<in> group_kinds candidates_vv g"
  shows "\<exists>v. parse_version s = Some v \<and> \<not> is_prerelease v"
proof -
  obtain mn mx where m: "py_min g = Inr mn" "py_max g = Inr mx"
    and mn: "mn \<in> set (collect_versions data)" and mx: "mx \<in> set (collect_versions data)"
    using group_min_max [OF assms(1)] by blast
  have "s = str_version mn \<or> s = str_version mx \<or> pre_min_tv mn = Some s \<or> mid_vv mn mx = Some s"
    using assms(2) m by (auto simp: group_kinds_def candidates_vv_def split: option.splits if_splits)
  then show ?thesis
    using collected_str_parses [OF mx] collected_str_parses [OF mn] pre_min_tv_dotted [of mn s]
      mid_vv_dotted [of mn mx s] dotted_parses by blast
qed

lemma generate_candidates_result:
  "\<exists>out. generate_candidates data = Inr out
     \<and> set out = (\<Union>(k, g)\<in>set (group_by_major (collect_versions data)). group_kinds candidates_vv g)"
proof (cases "collect_versions data = []")
  case True
  then show ?thesis
    by (simp add: generate_candidates_def group_by_major_Nil)
next
  case False
  let ?by_major = "group_by_major (collect_versions data)"
  have body: "\<exists>c'. group_candidates_vv g c = Inr c' \<and> set c' = set c \<union> group_kinds candidates_vv g"
    if kg: "(k, g) \<in> set ?by_major" for k g c
  proof -
    obtain mn mx where m: "py_min g = Inr mn" "py_max g = Inr mx"
      and mn: "mn \<in> set (collect_versions data)"
      using group_min_max [OF kg] by blast
    show ?thesis
      using group_candidates_vv_result [OF m collected_release_nonempty [OF mn], of c] m
      by (simp add: group_kinds_def candidates_vv_def Un_assoc)
  qed
  obtain c' where c': "for_groups group_candidates_vv ?by_major [] = Inr c'"
    "set c' = set [] \<union> (\<Union>(k, g)\<in>set ?by_major. group_kinds candidates_vv g)"
    using for_groups_result [of ?by_major group_candidates_vv "group_kinds candidates_vv" "[]"] body
    by blast
  have "\<forall>x\<in>set c'. parse_version x \<noteq> None"
    using c'(2) group_kinds_vv_parse [of _ _ data] by fastforce
  then obtain out where "sorted_by_version c' = Inr out" "set out = set c'"
    using sorted_by_version_result by blast
  then show ?thesis
    using False c' by (simp add: generate_candidates_def)
qed

lemma is_prerelease_bound_parsed:
  "parse_version s = Some v \<Longrightarrow> \<not> is_prerelease v \<Longrightarrow> \<not> is_prerelease_bound s"
  by (simp add: is_prerelease_bound_def)

lemma bound_versions_drop_prerelease: "bound_versions (drop_prerelease_bounds e) = bound_versions e"
proof -
  have "(case drop_prerelease_bounds e key of
         None \<Rightarrow> []
       | Some v_str \<Rightarrow>
           if v_str = [] then []
           else (case parse_version v_str of
                   None \<Rightarrow> []
                 | Some v \<Rightarrow> if \<not> is_prerelease v then [v] else []))
      = (case e key of
         None \<Rightarrow> []
       | Some v_str \<Rightarrow>
           if v_str = [] then []
           else (case parse_version v_str of
                   None \<Rightarrow> []
                 | Some v \<Rightarrow> if \<not> is_prerelease v then [v] else []))" for key
    by (cases "e key")
      (auto simp: drop_prerelease_bounds_def is_prerelease_bound_def split: option.splits)
  then show ?thesis
    by (simp add: bound_versions_def)
qed

lemma collect_versions_drop_prerelease:
  "collect_versions (map drop_prerelease_bounds data) = collect_versions data"
  by (simp add: collect_versions_def comp_def bound_versions_drop_prerelease)

subsection \<open>What holds of the divergent paths\<close>

text \<open>
  \<^verbatim>\<open>generate_candidates\<close> returns strings that parse again, sorted by their versions, and
  it produces the midpoint with a trailing 5 when the components at the first difference
  are one apart.
\<close>

lemma those_map_zip:
  "those (map f xs) = Some vs \<Longrightarrow> (v, x) \<in> set (zip vs xs) \<Longrightarrow> f x = Some v"
proof (induction xs arbitrary: vs)
  case Nil
  then show ?case by simp
next
  case (Cons a xs)
  then obtain w ws where w: "f a = Some w" "those (map f xs) = Some ws" "vs = w # ws"
    by (auto split: option.splits)
  then show ?case
    using Cons.IH [of ws] Cons.prems(2) by auto
qed

lemma those_map_length: "those (map f xs) = Some vs \<Longrightarrow> length vs = length xs"
  by (induction xs arbitrary: vs) (auto split: option.splits)

lemma sorted_by_version_sorted:
  assumes "sorted_by_version xs = Inr out"
  shows "\<exists>vs. map parse_version out = map Some vs \<and> sorted (map cmpkey vs)"
proof -
  obtain vs0 where vs0: "those (map parse_version xs) = Some vs0"
    and out: "out = map snd (sort_key (\<lambda>(v, x). cmpkey v) (zip vs0 xs))"
    using assms by (auto simp: sorted_by_version_def split: option.splits)
  let ?pairs = "sort_key (\<lambda>(v, x). cmpkey v) (zip vs0 xs)"
  have "parse_version (snd p) = Some (fst p)" if "p \<in> set ?pairs" for p
    using that those_map_zip [OF vs0, of "fst p" "snd p"] by simp
  then have "map parse_version out = map Some (map fst ?pairs)"
    unfolding out by simp
  moreover have "sorted (map cmpkey (map fst ?pairs))"
    using sorted_sort_key [of "\<lambda>(v, x). cmpkey v" "zip vs0 xs"]
    by (simp add: comp_def case_prod_unfold)
  ultimately show ?thesis
    by blast
qed

lemma generate_candidates_sorted:
  assumes "generate_candidates data = Inr out"
  shows "\<exists>vs. map parse_version out = map Some vs \<and> sorted (map cmpkey vs)"
proof (cases "collect_versions data = []")
  case True
  then have "out = []"
    using assms by (simp add: generate_candidates_def)
  then show ?thesis by simp
next
  case False
  then obtain c where "sorted_by_version c = Inr out"
    using assms by (auto simp: generate_candidates_def split: sum.splits)
  then show ?thesis
    by (rule sorted_by_version_sorted)
qed

lemma trim_zeros_nonzero: "last xs \<noteq> 0 \<Longrightarrow> trim_zeros xs = xs"
  by (subst trim_zeros.simps) simp

lemma mid_vv_gap_one:
  fixes m M :: Version and i :: nat
  defines "L \<equiv> max (length (release m)) (length (release M))"
  defines "p_min \<equiv> pad_zeros L (release m)" and "p_max \<equiv> pad_zeros L (release M)"
  assumes "version_lt m M"
    and "first_diff p_min p_max [0..<L] = Some i"
    and "int (p_max ! i) - int (p_min ! i) = 1"
  shows "mid_vv m M = Some (dotted (take (i + 1) p_min @ [5]))"
  using assms(4-)
  unfolding mid_vv_def mid_parts_vv_def Let_def L_def [symmetric] p_min_def [symmetric]
    p_max_def [symmetric]
  by (simp add: trim_zeros_nonzero)

section \<open>The claims\<close>

text \<open>
  Claim C1: in both scripts, a midpoint candidate \<open>c\<close> produced for a group with minimum
  \<open>m\<close> and maximum \<open>M\<close>, \<open>m < M\<close>, satisfies \<open>m < parse(c) < M\<close>.

  When the components at the first difference are one apart, \<^verbatim>\<open>generate_candidates\<close>
  keeps the minimum's components up to that index and appends 5, whatever the minimum's
  later components are. For the bounds \<^verbatim>\<open>1.2.9\<close> and \<^verbatim>\<open>1.3.0\<close> the midpoint is
  \<^verbatim>\<open>1.2.5\<close>, which is below the minimum \<^verbatim>\<open>1.2.9\<close>.
\<close>

theorem C1_midpoint_below_minimum:
  "generate_candidates [bounds ''1.2.9'' ''1.3.0''] = Inr [''1.2.5'', ''1.2.8'', ''1.2.9'', ''1.3.0'']
   \<and> parse_version ''1.2.9'' = Some (rel_version [1, 2, 9])
   \<and> parse_version ''1.3.0'' = Some (rel_version [1, 3, 0])
   \<and> version_lt (rel_version [1, 2, 9]) (rel_version [1, 3, 0])
   \<and> mid_vv (rel_version [1, 2, 9]) (rel_version [1, 3, 0]) = Some ''1.2.5''
   \<and> parse_version ''1.2.5'' = Some (rel_version [1, 2, 5])
   \<and> version_lt (rel_version [1, 2, 5]) (rel_version [1, 2, 9])"
  by code_simp

text \<open>
  Claim C2: when the components at the first difference are exactly one apart, the
  solver produces the midpoint made of the minimum's components up to that index and a
  trailing 5; the bounds \<^verbatim>\<open>1.0.0\<close> and \<^verbatim>\<open>1.1.0\<close> yield \<^verbatim>\<open>1.0.5\<close>.

  \<^verbatim>\<open>generate_candidates\<close> does so (\<open>mid_vv_gap_one\<close>). In
  \<^verbatim>\<open>get_version_candidates\<close> the branch for a
  difference of one ends in \<^verbatim>\<open>pass\<close> and adds nothing: for these bounds it returns
  \<^verbatim>\<open>0.0.0\<close> and \<^verbatim>\<open>1.1.0\<close> only.
\<close>

theorem C2_no_midpoint:
  "get_version_candidates [bounds ''1.0.0'' ''1.1.0''] = Inr [''0.0.0'', ''1.1.0'']
   \<and> mid_tv (rel_version [1, 0, 0]) (rel_version [1, 1, 0]) = None
   \<and> generate_candidates [bounds ''1.0.0'' ''1.1.0''] = Inr [''0.0.0'', ''1.0.0'', ''1.0.5'', ''1.1.0'']
   \<and> mid_vv (rel_version [1, 0, 0]) (rel_version [1, 1, 0]) = Some ''1.0.5''"
  by code_simp

text \<open>
  Claim C3: every string in the returned candidate set is one of the three per-group
  candidate kinds, a below-minimum candidate, a group maximum or a midpoint candidate, of
  some group; no other strings appear.

  This holds of \<^verbatim>\<open>get_version_candidates\<close>. \<^verbatim>\<open>generate_candidates\<close> also adds
  \<^verbatim>\<open>str(min_v)\<close> for every group (its step ``Min and Max''): for the bounds \<^verbatim>\<open>1.2.0\<close>
  and \<^verbatim>\<open>1.6.0\<close> it returns \<^verbatim>\<open>1.2.0\<close>, which is none of \<^verbatim>\<open>1.1.0\<close>, \<^verbatim>\<open>1.6.0\<close> and
  \<^verbatim>\<open>1.4.0\<close>, the three kinds of the only group. The theorem states the claim with the
  group's minimum as a fourth kind for \<^verbatim>\<open>generate_candidates\<close>.
\<close>

theorem C3_candidate_kinds:
  "(\<forall>out s. get_version_candidates data = Inr out \<and> s \<in> set out \<longrightarrow>
      (\<exists>(major, g)\<in>set (group_by_major (collect_versions data)). \<exists>min_v max_v.
          py_min g = Inr min_v \<and> py_max g = Inr max_v
        \<and> (pre_min_tv min_v = Some s \<or> s = str_version max_v \<or> mid_tv min_v max_v = Some s)))
   \<and> (\<forall>out s. generate_candidates data = Inr out \<and> s \<in> set out \<longrightarrow>
      (\<exists>(major, g)\<in>set (group_by_major (collect_versions data)). \<exists>min_v max_v.
          py_min g = Inr min_v \<and> py_max g = Inr max_v
        \<and> (pre_min_vv min_v = Inr (Some s) \<or> s = str_version max_v \<or> mid_vv min_v max_v = Some s
             \<or> s = str_version min_v)))"
proof (intro conjI allI impI)
  fix out s
  assume a: "get_version_candidates data = Inr out \<and> s \<in> set out"
  then obtain k g where kg: "(k, g) \<in> set (group_by_major (collect_versions data))"
    and s: "s \<in> group_kinds candidates_tv g"
    using get_version_candidates_result [of data] by auto
  obtain mn mx where m: "py_min g = Inr mn" "py_max g = Inr mx"
    using group_min_max [OF kg] by blast
  have "pre_min_tv mn = Some s \<or> s = str_version mx \<or> mid_tv mn mx = Some s"
    using s m by (auto simp: group_kinds_def candidates_tv_def split: option.splits if_splits)
  then show "\<exists>(major, g)\<in>set (group_by_major (collect_versions data)). \<exists>min_v max_v.
          py_min g = Inr min_v \<and> py_max g = Inr max_v
        \<and> (pre_min_tv min_v = Some s \<or> s = str_version max_v \<or> mid_tv min_v max_v = Some s)"
    using kg m by blast
next
  fix out s
  assume a: "generate_candidates data = Inr out \<and> s \<in> set out"
  then obtain k g where kg: "(k, g) \<in> set (group_by_major (collect_versions data))"
    and s: "s \<in> group_kinds candidates_vv g"
    using generate_candidates_result [of data] by auto
  obtain mn mx where m: "py_min g = Inr mn" "py_max g = Inr mx"
    and mn: "mn \<in> set (collect_versions data)"
    using group_min_max [OF kg] by blast
  have "pre_min_tv mn = Some s \<or> s = str_version mx \<or> mid_vv mn mx = Some s \<or> s = str_version mn"
    using s m by (auto simp: group_kinds_def candidates_vv_def split: option.splits if_splits)
  then have "pre_min_vv mn = Inr (Some s) \<or> s = str_version mx \<or> mid_vv mn mx = Some s
      \<or> s = str_version mn"
    using pre_min_vv_tv [OF collected_release_nonempty [OF mn]] by auto
  then show "\<exists>(major, g)\<in>set (group_by_major (collect_versions data)). \<exists>min_v max_v.
          py_min g = Inr min_v \<and> py_max g = Inr max_v
        \<and> (pre_min_vv min_v = Inr (Some s) \<or> s = str_version max_v \<or> mid_vv min_v max_v = Some s
             \<or> s = str_version min_v)"
    using kg m by blast
qed

theorem C3_candidate_kinds_witness:
  "get_version_candidates [bounds ''1.2.0'' ''1.6.0''] = Inr [''1.1.0'', ''1.4.0'', ''1.6.0'']
   \<and> (\<exists>(major, g)\<in>set (group_by_major (collect_versions [bounds ''1.2.0'' ''1.6.0''])).
         \<exists>min_v max_v. py_min g = Inr min_v \<and> py_max g = Inr max_v
           \<and> (pre_min_tv min_v = Some ''1.4.0'' \<or> ''1.4.0'' = str_version max_v
                \<or> mid_tv min_v max_v = Some ''1.4.0''))"
proof -
  let ?data = "[bounds ''1.2.0'' ''1.6.0'']"
  have e: "get_version_candidates ?data = Inr [''1.1.0'', ''1.4.0'', ''1.6.0'']"
    by code_simp
  note t = C3_candidate_kinds [of ?data, THEN conjunct1, rule_format,
      of "[''1.1.0'', ''1.4.0'', ''1.6.0'']" "''1.4.0''"]
  have "\<exists>(major, g)\<in>set (group_by_major (collect_versions ?data)).
         \<exists>min_v max_v. py_min g = Inr min_v \<and> py_max g = Inr max_v
           \<and> (pre_min_tv min_v = Some ''1.4.0'' \<or> ''1.4.0'' = str_version max_v
                \<or> mid_tv min_v max_v = Some ''1.4.0'')"
    by (rule t) (simp add: e)
  then show ?thesis
    using e by blast
qed

theorem C3_minimum_counterexample:
  "generate_candidates [bounds ''1.2.0'' ''1.6.0''] = Inr [''1.1.0'', ''1.2.0'', ''1.4.0'', ''1.6.0'']
   \<and> ''1.2.0'' \<in> set [''1.1.0'', ''1.2.0'', ''1.4.0'', ''1.6.0'']
   \<and> group_by_major (collect_versions [bounds ''1.2.0'' ''1.6.0''])
       = [(1, [rel_version [1, 2, 0], rel_version [1, 6, 0]])]
   \<and> py_min [rel_version [1, 2, 0], rel_version [1, 6, 0]] = Inr (rel_version [1, 2, 0])
   \<and> py_max [rel_version [1, 2, 0], rel_version [1, 6, 0]] = Inr (rel_version [1, 6, 0])
   \<and> pre_min_vv (rel_version [1, 2, 0]) = Inr (Some ''1.1.0'')
   \<and> str_version (rel_version [1, 6, 0]) = ''1.6.0''
   \<and> mid_vv (rel_version [1, 2, 0]) (rel_version [1, 6, 0]) = Some ''1.4.0''
   \<and> \<not> (\<exists>(major, g)\<in>set (group_by_major (collect_versions [bounds ''1.2.0'' ''1.6.0''])).
          \<exists>min_v max_v. py_min g = Inr min_v \<and> py_max g = Inr max_v
            \<and> (pre_min_vv min_v = Inr (Some ''1.2.0'') \<or> ''1.2.0'' = str_version max_v
                 \<or> mid_vv min_v max_v = Some ''1.2.0''))"
proof -
  let ?data = "[bounds ''1.2.0'' ''1.6.0'']"
  let ?g = "[rel_version [1, 2, 0], rel_version [1, 6, 0]]"
  have out: "generate_candidates ?data = Inr [''1.1.0'', ''1.2.0'', ''1.4.0'', ''1.6.0'']"
    by code_simp
  have g: "group_by_major (collect_versions ?data) = [(1, ?g)]"
    by code_simp
  have mn: "py_min ?g = Inr (rel_version [1, 2, 0])" and mx: "py_max ?g = Inr (rel_version [1, 6, 0])"
    by code_simp+
  have pre: "pre_min_vv (rel_version [1, 2, 0]) = Inr (Some ''1.1.0'')"
    and str: "str_version (rel_version [1, 6, 0]) = ''1.6.0''"
    and mid: "mid_vv (rel_version [1, 2, 0]) (rel_version [1, 6, 0]) = Some ''1.4.0''"
    by code_simp+
  have "\<not> (\<exists>(major, g)\<in>set (group_by_major (collect_versions ?data)).
          \<exists>min_v max_v. py_min g = Inr min_v \<and> py_max g = Inr max_v
            \<and> (pre_min_vv min_v = Inr (Some ''1.2.0'') \<or> ''1.2.0'' = str_version max_v
                 \<or> mid_vv min_v max_v = Some ''1.2.0''))"
    unfolding g using mn mx pre str mid by simp
  then show ?thesis
    using out g mn mx pre str mid by simp
qed

text \<open>
  Claim C4: every returned string parses again, and the returned sequence is sorted by
  parsed version, not by string order, in both scripts.

  \<^verbatim>\<open>get_version_candidates\<close> returns \<^verbatim>\<open>sorted(list(candidates))\<close> without a key, so the
  strings are in string order. For the bounds \<^verbatim>\<open>1.9.0\<close> and \<^verbatim>\<open>1.10.0\<close> it returns
  \<^verbatim>\<open>1.10.0\<close> before \<^verbatim>\<open>1.8.0\<close>, although \<^verbatim>\<open>1.8.0\<close> is the smaller version.
  \<^verbatim>\<open>generate_candidates\<close> sorts with the key \<^verbatim>\<open>parse_version\<close>, and its result is
  sorted by version (\<open>generate_candidates_sorted\<close>).
\<close>

theorem C4_string_order:
  "get_version_candidates [bounds ''1.9.0'' ''1.10.0''] = Inr [''1.10.0'', ''1.8.0'']
   \<and> parse_version ''1.10.0'' = Some (rel_version [1, 10, 0])
   \<and> parse_version ''1.8.0'' = Some (rel_version [1, 8, 0])
   \<and> version_lt (rel_version [1, 8, 0]) (rel_version [1, 10, 0])"
  by code_simp





text \<open>
  Claim C7: no string that parses as a pre-release is in the result, and removing all
  pre-release bounds from the input leaves the result unchanged, in both scripts.

  Every returned string parses to a version that is not a pre-release, and both functions
  return the same on the input and on the input without its pre-release bounds.
\<close>

theorem C7_prerelease_exclusion:
  "(\<forall>out s. get_version_candidates data = Inr out \<and> s \<in> set out \<longrightarrow>
      \<not> is_prerelease_bound s \<and> (\<exists>v. parse_version s = Some v \<and> \<not> is_prerelease v))
   \<and> (\<forall>out s. generate_candidates data = Inr out \<and> s \<in> set out \<longrightarrow>
      \<not> is_prerelease_bound s \<and> (\<exists>v. parse_version s = Some v \<and> \<not> is_prerelease v))
   \<and> get_version_candidates (map drop_prerelease_bounds data) = get_version_candidates data
   \<and> generate_candidates (map drop_prerelease_bounds data) = generate_candidates data"
proof (intro conjI allI impI)
  fix out s
  assume "get_version_candidates data = Inr out \<and> s \<in> set out"
  then obtain k g where "(k, g) \<in> set (group_by_major (collect_versions data))"
    "s \<in> group_kinds candidates_tv g"
    using get_version_candidates_result [of data] by auto
  then show "\<exists>v. parse_version s = Some v \<and> \<not> is_prerelease v"
    by (rule group_kinds_tv_parse)
  then show "\<not> is_prerelease_bound s"
    using is_prerelease_bound_parsed by blast
next
  fix out s
  assume "generate_candidates data = Inr out \<and> s \<in> set out"
  then obtain k g where "(k, g) \<in> set (group_by_major (collect_versions data))"
    "s \<in> group_kinds candidates_vv g"
    using generate_candidates_result [of data] by auto
  then show "\<exists>v. parse_version s = Some v \<and> \<not> is_prerelease v"
    by (rule group_kinds_vv_parse)
  then show "\<not> is_prerelease_bound s"
    using is_prerelease_bound_parsed by blast
next
  show "get_version_candidates (map drop_prerelease_bounds data) = get_version_candidates data"
    by (simp add: get_version_candidates_def collect_versions_drop_prerelease)
  show "generate_candidates (map drop_prerelease_bounds data) = generate_candidates data"
    by (simp add: generate_candidates_def collect_versions_drop_prerelease)
qed

theorem C7_prerelease_exclusion_witness:
  "is_prerelease_bound ''2.0.0rc1''
   \<and> get_version_candidates [bounds ''2.0.0rc1'' ''2.1.0''] = Inr [''2.0.0'', ''2.1.0'']
   \<and> get_version_candidates (map drop_prerelease_bounds [bounds ''2.0.0rc1'' ''2.1.0''])
       = Inr [''2.0.0'', ''2.1.0'']
   \<and> generate_candidates (map drop_prerelease_bounds [bounds ''2.0.0rc1'' ''2.1.0''])
       = generate_candidates [bounds ''2.0.0rc1'' ''2.1.0'']
   \<and> \<not> is_prerelease_bound ''2.0.0''"
proof -
  let ?data = "[bounds ''2.0.0rc1'' ''2.1.0'']"
  have rc: "is_prerelease_bound ''2.0.0rc1''"
    by code_simp
  have e: "get_version_candidates ?data = Inr [''2.0.0'', ''2.1.0'']"
    by code_simp
  note t = C7_prerelease_exclusion [of ?data]
  have "\<not> is_prerelease_bound ''2.0.0''"
    using t [THEN conjunct1, rule_format, of "[''2.0.0'', ''2.1.0'']" "''2.0.0''"] e by simp
  then show ?thesis
    using t rc e by simp
qed








end
